theory Spec2Isabelle
  imports Complex_Main
begin

section \<open>The plant graph and the controller state\<close>

text \<open>Exceptions of the Python source, as values.\<close>

datatype py_error = IndexError | KeyError | TypeError | ValueError | AttributeError | AssertionError

type_synonym node = nat
type_synonym point = "real \<times> real \<times> real"

text \<open>Row-wise difference and Euclidean norm of \<open>numpy\<close> on 3-D points.\<close>

fun vsub :: "point \<Rightarrow> point \<Rightarrow> point" where
  "vsub (a, b, c) (x, y, z) = (a - x, b - y, c - z)"

fun norm3 :: "point \<Rightarrow> real" where
  "norm3 (x, y, z) = sqrt (x\<^sup>2 + y\<^sup>2 + z\<^sup>2)"

text \<open>\<open>np.cumsum\<close> on a one-dimensional array.\<close>

fun cumsum_from :: "real \<Rightarrow> real list \<Rightarrow> real list" where
  "cumsum_from acc [] = []"
| "cumsum_from acc (x # xs) = (acc + x) # cumsum_from (acc + x) xs"

definition cumsum :: "real list \<Rightarrow> real list" where
  "cumsum xs = cumsum_from 0 xs"

text \<open>\<open>np.linalg.norm(pts[:-1] - pts[1:], axis=1)\<close>: the lengths of consecutive segments.\<close>

definition seg_lens :: "point list \<Rightarrow> real list" where
  "seg_lens pts = map norm3 (map2 vsub (butlast pts) (tl pts))"

text \<open>
  A module is a tag with its payload; an edge carries \<open>pre_modules\<close> and
  \<open>post_modules\<close>. The source reads both with \<open>.get(key, [])\<close>, so a missing key
  is the empty list.
\<close>

type_synonym module = "string \<times> nat list"

record edge =
  pre_modules :: "module list"
  post_modules :: "module list"

record branch =
  generation :: nat
  nodes :: "node list"
  points :: "point list"
  length_b :: real

text \<open>
  Modelled from the spec: the plant graph \<open>LStringGraphDual\<close> of \<open>graph_utils\<close>, which is
  not part of the source. Branches and edges are dictionaries (association lists, in
  insertion order). The two mutation primitives \<open>set_guide_on_nodes(node_span,
  curve_points, guide_kind)\<close> and \<open>stub_branch(nodes, excess_length)\<close> are recorded as
  the graph's guide annotations and stub cuts, in call order.
\<close>

record graph_dual =
  branches :: "(nat \<times> branch) list"
  edges :: "((node \<times> node) \<times> edge) list"
  guides :: "(node list \<times> point list \<times> string) list"
  stubs :: "(node list \<times> real) list"

definition set_guide_on_nodes :: "graph_dual \<Rightarrow> node list \<Rightarrow> point list \<Rightarrow> string \<Rightarrow> graph_dual" where
  "set_guide_on_nodes t ns curve_pts kind = t\<lparr>guides := guides t @ [(ns, curve_pts, kind)]\<rparr>"

definition stub_branch :: "graph_dual \<Rightarrow> node list \<Rightarrow> real \<Rightarrow> graph_dual" where
  "stub_branch t ns excess = t\<lparr>stubs := stubs t @ [(ns, excess)]\<rparr>"

text \<open>
  Modelled from the spec: \<open>search_branches(attribute, operator, value, assert_unique)\<close>
  returns the ids of the branches whose generation equals the value; with
  \<open>assert_unique\<close> it fails unless exactly one branch matches.
\<close>

definition search_branches :: "graph_dual \<Rightarrow> nat \<Rightarrow> nat list" where
  "search_branches t g = map fst (filter (\<lambda>(i, b). generation b = g) (branches t))"

definition search_branches_unique :: "graph_dual \<Rightarrow> nat \<Rightarrow> py_error + nat" where
  "search_branches_unique t g =
     (case search_branches t g of [i] \<Rightarrow> Inr i | _ \<Rightarrow> Inl AssertionError)"

text \<open>
  Modelled from the spec: a trellis target, through its one query used here,
  \<open>get_point_sequence_dist(pts)\<close>, of which the source keeps the distance to the target
  and the target point.
\<close>

type_synonym target = "point list \<Rightarrow> real \<times> point"

text \<open>
  Modelled from the spec: the curve fit of \<open>curves\<close>. Given the start point, the target
  point and the tangent, the result is \<open>None\<close> when the optimisation does not converge
  (\<open>rez.success\<close> is false) and otherwise the fitted curve sampled at
  \<open>np.linspace(0, 1, 10)\<close>.
\<close>

type_synonym curve_fit = "point \<Rightarrow> point \<Rightarrow> point \<Rightarrow> point list option"

text \<open>
  \<open>wire_walls\<close> is used in two shapes by the source: \<open>range(self.wire_walls)\<close> needs an
  integer, \<open>self.wire_walls[wall_id]\<close> a mapping from wall id to its targets.
\<close>

datatype wire_walls = WallCount int | WallMap "(nat \<times> target list) list"

text \<open>
  The keyword parameters read by the source, each with the type of its default;
  \<open>None\<close> is an absent key.
\<close>

record params =
  leaders_per_wall :: "int option"
  leader_spacing :: "real option"
  trunk_bare_dist :: "real option"
  leader_excess_stub :: "real option"

record strategy =
  trunk_targets :: "target list"
  wire_walls :: wire_walls
  params :: params
  tree :: "graph_dual option"
  next_trunk_target :: nat
  leaders_assigned :: bool

text \<open>\<open>UFOPruningStrategy.__init__\<close> and \<open>set_tree\<close>.\<close>

definition UFOPruningStrategy :: "target list \<Rightarrow> wire_walls \<Rightarrow> params \<Rightarrow> strategy" where
  "UFOPruningStrategy tts ww ps =
     \<lparr>trunk_targets = tts, wire_walls = ww, params = ps, tree = None,
      next_trunk_target = 0, leaders_assigned = False\<rparr>"

definition set_tree :: "strategy \<Rightarrow> graph_dual \<Rightarrow> strategy" where
  "set_tree self t = self\<lparr>tree := Some t\<rparr>"

text \<open>
  The outcome of a method that returns nothing: it returns, or an exception propagates.
  Either way the state is the one the call leaves behind.
\<close>

datatype 's result = Done 's | Raise py_error 's

fun state_of :: "'s result \<Rightarrow> 's" where
  "state_of (Done s) = s"
| "state_of (Raise e s) = s"

section \<open>Trunk tie-down\<close>

text \<open>\<open>data.get('Flags', [])\<close> on \<open>dict(post_modules)\<close>: the last pair of a key wins.\<close>

definition flags_of :: "module list \<Rightarrow> nat list" where
  "flags_of mods = (case map_of (rev mods) ''Flags'' of None \<Rightarrow> [] | Some f \<Rightarrow> f)"

text \<open>The loop over the trunk's edges that keeps the index after the last tied internode.\<close>

fun find_last_tie :: "graph_dual \<Rightarrow> (node \<times> node) list \<Rightarrow> nat \<Rightarrow> nat \<Rightarrow> py_error + nat" where
  "find_last_tie t [] idx last_tie_idx = Inr last_tie_idx"
| "find_last_tie t (e # es) idx last_tie_idx =
     (case map_of (edges t) e of
        None \<Rightarrow> Inl KeyError
      | Some d \<Rightarrow>
          find_last_tie t es (idx + 1)
            (if 1 \<in> set (flags_of (post_modules d)) then idx + 1 else last_tie_idx))"

text \<open>The untied tail of the trunk: its nodes and points from \<open>last_tie_idx\<close> on.\<close>

definition trunk_tail :: "graph_dual \<Rightarrow> py_error + (node list \<times> point list)" where
  "trunk_tail t =
     (case search_branches_unique t 0 of
        Inl e \<Rightarrow> Inl e
      | Inr root_branch \<Rightarrow>
          (case map_of (branches t) root_branch of
             None \<Rightarrow> Inl KeyError
           | Some b \<Rightarrow>
               (case find_last_tie t (zip (butlast (nodes b)) (tl (nodes b))) 0 0 of
                  Inl e \<Rightarrow> Inl e
                | Inr last_tie_idx \<Rightarrow>
                    Inr (drop last_tie_idx (nodes b), drop last_tie_idx (points b)))))"

text \<open>\<open>np.argmax\<close> of a boolean array: the index of the first \<open>True\<close>, and 0 when there is none.\<close>

fun first_true :: "bool list \<Rightarrow> nat option" where
  "first_true [] = None"
| "first_true (b # bs) = (if b then Some 0 else map_option Suc (first_true bs))"

definition argmax_bool :: "bool list \<Rightarrow> nat" where
  "argmax_bool bs = (case first_true bs of None \<Rightarrow> 0 | Some i \<Rightarrow> i)"

text \<open>Python's \<open>a or b\<close> on integers: \<open>b\<close> when \<open>a\<close> is 0.\<close>

definition py_or :: "int \<Rightarrow> int \<Rightarrow> int" where
  "py_or a b = (if a = 0 then b else a)"

text \<open>
  \<open>tie_down_node_idx = (np.argmax(cumul_lens > curve_len) or len(nodes) - 2) + 1\<close>
\<close>

definition tie_down_node_idx :: "real list \<Rightarrow> real \<Rightarrow> nat \<Rightarrow> int" where
  "tie_down_node_idx cumul_lens curve_len n_nodes =
     py_or (int (argmax_bool (map (\<lambda>c. c > curve_len) cumul_lens))) (int n_nodes - 2) + 1"

text \<open>
  Every exception of \<open>tie_down_trunk\<close> is raised before its two mutations (the guide
  annotation and the increment), so a raising call leaves the state as it was.
\<close>

definition tie_down_trunk :: "curve_fit \<Rightarrow> strategy \<Rightarrow> strategy result" where
  "tie_down_trunk curves self =
     (if \<not> next_trunk_target self < length (trunk_targets self) then Done self
      else
        let target = trunk_targets self ! next_trunk_target self in
        case tree self of
          None \<Rightarrow> Raise AttributeError self
        | Some t \<Rightarrow>
            (case trunk_tail t of
               Inl e \<Rightarrow> Raise e self
             | Inr (tail_nodes, pts) \<Rightarrow>
                 let cumul_lens = cumsum (seg_lens pts) in
                 if cumul_lens = [] then Raise IndexError self
                 else
                   let total = last cumul_lens in
                   if total > 0 then
                     (case target pts of
                        (dist_to_target, target_pt) \<Rightarrow>
                          if total > dist_to_target + norm3 (vsub target_pt (hd pts)) then
                            (case tail_nodes of
                               [] \<Rightarrow> Raise IndexError self
                             | n0 # _ \<Rightarrow>
                                 let k = (if n0 = 0 then 2 else 1) in
                                 if \<not> k < length pts then Raise IndexError self
                                 else
                                   (case curves (hd pts) target_pt (vsub (pts ! k) (hd pts)) of
                                      None \<Rightarrow> Done self
                                    | Some curve_pts \<Rightarrow>
                                        let curve_len = sum_list (seg_lens curve_pts);
                                            idx = tie_down_node_idx cumul_lens curve_len
                                                    (length tail_nodes)
                                        in Done (self\<lparr>tree := Some (set_guide_on_nodes t
                                                     (take (nat (idx + 1)) tail_nodes)
                                                     curve_pts ''GlobalGuide''),
                                                   next_trunk_target := next_trunk_target self + 1\<rparr>)))
                          else Done self)
                   else Done self))"

text \<open>
  A driver: it binds a graph snapshot with \<open>set_tree\<close> or calls \<open>tie_down_trunk\<close>. A
  call that raises leaves the state it had, and the driver goes on.
\<close>

datatype driver_step = SetTree graph_dual | TieDown

fun run_driver :: "curve_fit \<Rightarrow> driver_step list \<Rightarrow> strategy \<Rightarrow> strategy" where
  "run_driver curves [] self = self"
| "run_driver curves (SetTree t # steps) self = run_driver curves steps (set_tree self t)"
| "run_driver curves (TieDown # steps) self =
     run_driver curves steps (state_of (tie_down_trunk curves self))"

section \<open>Distance to the nearest occupied position\<close>

text \<open>
  The result of \<open>query_dist_from_line_points\<close> is a float that may be \<open>np.inf\<close>.
  Positions are modelled as reals, the infinite sentinel as its own constructor.
\<close>

datatype dist = Fin real | PInf

text \<open>
  The \<open>for l, u in zip(sorted_array[:-1], sorted_array[1:])\<close> loop of the last branch:
  it returns at the first enclosing pair; running off the end of the loop is the
  implicit \<open>None\<close> of a Python function without a return.
\<close>

fun scan_pairs :: "real \<Rightarrow> (real \<times> real) list \<Rightarrow> real option" where
  "scan_pairs pt [] = None"
| "scan_pairs pt ((l, u) # ps) =
     (if l \<le> pt \<and> pt < u then Some (min (pt - l) (u - pt)) else scan_pairs pt ps)"

definition query_dist_from_line_points :: "real \<Rightarrow> real list \<Rightarrow> dist option" where
  "query_dist_from_line_points pt sorted_array =
     (if length sorted_array = 0 then Some PInf
      else if pt < hd sorted_array then Some (Fin (hd sorted_array - pt))
      else if pt \<ge> last sorted_array then Some (Fin (pt - last sorted_array))
      else map_option Fin (scan_pairs pt (zip (butlast sorted_array) (tl sorted_array))))"

subsection \<open>Specification-side notions for the distance query\<close>

text \<open>
  The immediate lower and upper neighbours of a position in a sorted list, and the
  distance to the nearest element, written from the specification's words. They are
  compared with the function above; the function itself does not use them.
\<close>

definition lower_nb :: "real \<Rightarrow> real list \<Rightarrow> real" where
  "lower_nb p s = last (filter (\<lambda>v. v \<le> p) s)"
definition upper_nb :: "real \<Rightarrow> real list \<Rightarrow> real" where
  "upper_nb p s = hd (filter (\<lambda>v. p < v) s)"

definition nearest :: "real \<Rightarrow> real list \<Rightarrow> real" where
  "nearest p s = Min ((\<lambda>v. \<bar>p - v\<bar>) ` set s)"

section \<open>The distance query on doubles\<close>

text \<open>
  The positions of the source are IEEE doubles. This second embedding of
  \<open>query_dist_from_line_points\<close> keeps what the reals above leave out: the two
  infinities, NaN, and the overflow of a difference. A comparison with NaN is false; a
  difference of finite values is infinite when its magnitude reaches the rounding
  threshold above the largest double, \<open>2^1024 - 2^970\<close>. Rounding to nearest is
  monotone and keeps 0, so it changes neither the branch taken nor the sign of a result;
  a finite result carries the exact difference.
\<close>

datatype double = Finite real | PosInf | NegInf | NaN

definition overflow_bound :: real where
  "overflow_bound = 2 ^ 1024 - 2 ^ 970"

fun d_less :: "double \<Rightarrow> double \<Rightarrow> bool" where
  "d_less NaN b = False"
| "d_less a NaN = False"
| "d_less (Finite a) (Finite b) = (a < b)"
| "d_less (Finite a) PosInf = True"
| "d_less (Finite a) NegInf = False"
| "d_less PosInf b = False"
| "d_less NegInf NegInf = False"
| "d_less NegInf b = True"

fun d_le :: "double \<Rightarrow> double \<Rightarrow> bool" where
  "d_le NaN b = False"
| "d_le a NaN = False"
| "d_le (Finite a) (Finite b) = (a \<le> b)"
| "d_le (Finite a) PosInf = True"
| "d_le (Finite a) NegInf = False"
| "d_le PosInf PosInf = True"
| "d_le PosInf b = False"
| "d_le NegInf b = True"

fun d_sub :: "double \<Rightarrow> double \<Rightarrow> double" where
  "d_sub NaN b = NaN"
| "d_sub a NaN = NaN"
| "d_sub (Finite a) (Finite b) =
     (if overflow_bound \<le> a - b then PosInf
      else if a - b \<le> - overflow_bound then NegInf
      else Finite (a - b))"
| "d_sub (Finite a) PosInf = NegInf"
| "d_sub (Finite a) NegInf = PosInf"
| "d_sub PosInf PosInf = NaN"
| "d_sub PosInf b = PosInf"
| "d_sub NegInf NegInf = NaN"
| "d_sub NegInf b = NegInf"

text \<open>The built-in \<open>min(a, b)\<close>: the second argument only when it is smaller.\<close>

definition py_min :: "double \<Rightarrow> double \<Rightarrow> double" where
  "py_min a b = (if d_less b a then b else a)"

fun scan_pairs_double :: "double \<Rightarrow> (double \<times> double) list \<Rightarrow> double option" where
  "scan_pairs_double pt [] = None"
| "scan_pairs_double pt ((l, u) # ps) =
     (if d_le l pt \<and> d_less pt u then Some (py_min (d_sub pt l) (d_sub u pt))
      else scan_pairs_double pt ps)"

definition query_dist_double :: "double \<Rightarrow> double list \<Rightarrow> double option" where
  "query_dist_double pt sorted_array =
     (if length sorted_array = 0 then Some PosInf
      else if d_less pt (hd sorted_array) then Some (d_sub (hd sorted_array) pt)
      else if d_le (last sorted_array) pt then Some (d_sub pt (last sorted_array))
      else scan_pairs_double pt (zip (butlast sorted_array) (tl sorted_array)))"

text \<open>A defined, non-negative result: a finite value that is not negative, or infinity.\<close>

definition d_nonneg :: "double \<Rightarrow> bool" where
  "d_nonneg d = (case d of Finite r \<Rightarrow> 0 \<le> r | PosInf \<Rightarrow> True | NegInf \<Rightarrow> False | NaN \<Rightarrow> False)"

text \<open>A non-negative real distance as the double the source returns for it.\<close>

definition to_double :: "real \<Rightarrow> double" where
  "to_double r = (if overflow_bound \<le> r then PosInf else Finite r)"

section \<open>Leader assignment\<close>

text \<open>
  \<open>find_module\<close>: the payload of the first module with the given tag among the edge's
  \<open>pre_modules\<close>, \<open>None\<close> when there is none; an edge that is not in the graph is a
  \<open>KeyError\<close>.
\<close>

definition find_module :: "graph_dual \<Rightarrow> string \<Rightarrow> node \<times> node \<Rightarrow> py_error + nat list option" where
  "find_module t module_tag e =
     (case map_of (edges t) e of
        None \<Rightarrow> Inl KeyError
      | Some d \<Rightarrow> Inr (map_of (pre_modules d) module_tag))"

text \<open>
  The tied-node registry \<open>tied_nodes = defaultdict(list)\<close>. Its values are lists of node
  ids where the source appends, and a bare node id where the source assigns
  \<open>tied_nodes[wall_id] = nodes[0]\<close>. The dictionary keeps insertion order.
\<close>

datatype reg_entry = NodeList "node list" | SingleNode node

type_synonym registry = "(nat \<times> reg_entry) list"

fun dict_set :: "('k \<times> 'v) list \<Rightarrow> 'k \<Rightarrow> 'v \<Rightarrow> ('k \<times> 'v) list" where
  "dict_set [] k v = [(k, v)]"
| "dict_set ((k', v') # d) k v =
     (if k' = k then (k, v) # d else (k', v') # dict_set d k v)"

text \<open>Reading \<open>tied_nodes[k]\<close>: a missing key is inserted with the empty list.\<close>

definition dd_get :: "registry \<Rightarrow> nat \<Rightarrow> reg_entry \<times> registry" where
  "dd_get reg k =
     (case map_of reg k of
        None \<Rightarrow> (NodeList [], dict_set reg k (NodeList []))
      | Some v \<Rightarrow> (v, reg))"

text \<open>
  \<open>manage_tied_branch\<close>. \<open>self.wire_walls[wall_id]\<close> needs the mapping shape. On the last
  wire of the wall the branch is stubbed; otherwise the source reads \<open>self.graph\<close>, an
  attribute the controller does not have.
\<close>

definition manage_tied_branch ::
  "wire_walls \<Rightarrow> params \<Rightarrow> graph_dual \<Rightarrow> node list \<Rightarrow> nat \<Rightarrow> nat \<Rightarrow> graph_dual result" where
  "manage_tied_branch ww ps t ns wall_id wall_tie_idx =
     (case ww of
        WallCount n \<Rightarrow> Raise TypeError t
      | WallMap m \<Rightarrow>
          (case map_of m wall_id of
             None \<Rightarrow> Raise KeyError t
           | Some wall \<Rightarrow>
               if int wall_tie_idx = int (length wall) - 1 then
                 Done (stub_branch t ns
                        (case leader_excess_stub ps of None \<Rightarrow> 5 / 2 | Some x \<Rightarrow> x))
               else if ns = [] then Raise IndexError t
               else if \<not> wall_tie_idx + 1 < length wall then Raise IndexError t
               else Raise AttributeError t))"

text \<open>
  The edges visited by \<open>zip(nodes[-2:1:-1], nodes[-1:2:-1])\<close>: the first slice runs from
  index \<open>len - 2\<close> down to index 2, the second from \<open>len - 1\<close> down to index 3.
\<close>

definition tie_edges :: "node list \<Rightarrow> (node \<times> node) list" where
  "tie_edges ns = zip (rev (drop 2 (butlast ns))) (rev (drop 3 ns))"

text \<open>The inner loop of \<open>assign_leaders\<close> over these edges, for one branch.\<close>

fun scan_ties ::
  "wire_walls \<Rightarrow> params \<Rightarrow> node list \<Rightarrow> (node \<times> node) list \<Rightarrow> registry \<times> graph_dual
     \<Rightarrow> (registry \<times> graph_dual) result" where
  "scan_ties ww ps ns [] (reg, t) = Done (reg, t)"
| "scan_ties ww ps ns (e # es) (reg, t) =
     (case find_module t ''Tie'' e of
        Inl err \<Rightarrow> Raise err (reg, t)
      | Inr None \<Rightarrow> scan_ties ww ps ns es (reg, t)
      | Inr (Some tie_info) \<Rightarrow>
          (case tie_info of
             [wall_id, wall_tie_idx] \<Rightarrow>
               (case ns of
                  [] \<Rightarrow> Raise IndexError (reg, t)
                | n0 # _ \<Rightarrow>
                    let reg' = dict_set reg wall_id (SingleNode n0) in
                    (case manage_tied_branch ww ps t (dropWhile (\<lambda>n. n \<noteq> snd e) ns)
                            wall_id wall_tie_idx of
                       Raise err t' \<Rightarrow> Raise err (reg', t')
                     | Done t' \<Rightarrow> scan_ties ww ps ns es (reg', t')))
           | _ \<Rightarrow> Raise ValueError (reg, t)))"

text \<open>The body of the loop over the generation-1 branches: ties, then the mark.\<close>

definition register_branch ::
  "wire_walls \<Rightarrow> params \<Rightarrow> nat \<Rightarrow> registry \<times> graph_dual \<Rightarrow> (registry \<times> graph_dual) result" where
  "register_branch ww ps branch_id st =
     (case map_of (branches (snd st)) branch_id of
        None \<Rightarrow> Raise KeyError st
      | Some b \<Rightarrow>
          (case scan_ties ww ps (nodes b) (tie_edges (nodes b)) st of
             Raise err st' \<Rightarrow> Raise err st'
           | Done (reg, t) \<Rightarrow>
               (case nodes b of
                  n0 # n1 # _ \<Rightarrow>
                    (case find_module t ''Mark'' (n0, n1) of
                       Inl err \<Rightarrow> Raise err (reg, t)
                     | Inr None \<Rightarrow> Done (reg, t)
                     | Inr (Some mark) \<Rightarrow>
                         (case mark of
                            [] \<Rightarrow> Raise IndexError (reg, t)
                          | wall_id # _ \<Rightarrow>
                              (case dd_get reg wall_id of
                                 (NodeList l, reg') \<Rightarrow>
                                   Done (dict_set reg' wall_id (NodeList (l @ [n0])), t)
                               | (SingleNode _, reg') \<Rightarrow> Raise AttributeError (reg', t))))
                | _ \<Rightarrow> Raise IndexError (reg, t))))"

fun register_branches ::
  "wire_walls \<Rightarrow> params \<Rightarrow> nat list \<Rightarrow> registry \<times> graph_dual \<Rightarrow> (registry \<times> graph_dual) result" where
  "register_branches ww ps [] st = Done st"
| "register_branches ww ps (branch_id # ids) st =
     (case register_branch ww ps branch_id st of
        Raise err st' \<Rightarrow> Raise err st'
      | Done st' \<Rightarrow> register_branches ww ps ids st')"

text \<open>
  The capacity check over \<open>range(self.wire_walls)\<close>: \<open>len(trunk_nodes)\<close> fails on a
  bare node id.
\<close>

fun capacity_check :: "int \<Rightarrow> nat list \<Rightarrow> registry \<Rightarrow> bool \<Rightarrow> py_error + (registry \<times> bool)" where
  "capacity_check lpw [] reg is_full = Inr (reg, is_full)"
| "capacity_check lpw (wall_id # ws) reg is_full =
     (case dd_get reg wall_id of
        (NodeList trunk_nodes, reg') \<Rightarrow>
          capacity_check lpw ws reg' (if int (length trunk_nodes) < lpw then False else is_full)
      | (SingleNode _, reg') \<Rightarrow> Inl TypeError)"

text \<open>
  The conversion of the registry to sorted arc-length positions. The expression
  \<open>root_nodes.index[n]\<close> subscripts a method, so the comprehension raises \<open>TypeError\<close>
  for any registered node (and iterating a bare node id raises it too); only empty
  lists pass, and they add nothing to \<open>all_tied_nodes\<close>.
\<close>

fun to_spacings :: "registry \<Rightarrow> py_error + ((nat \<times> real list) list \<times> node list)" where
  "to_spacings [] = Inr ([], [])"
| "to_spacings ((wall_id, NodeList []) # r) =
     (case to_spacings r of
        Inl err \<Rightarrow> Inl err
      | Inr (wall_spacings, all_tied_nodes) \<Rightarrow>
          Inr ((wall_id, sort []) # wall_spacings, all_tied_nodes))"
| "to_spacings ((wall_id, _) # r) = Inl TypeError"

text \<open>Comparison of distances, with the infinite sentinel above every real.\<close>

fun dist_less :: "dist \<Rightarrow> dist \<Rightarrow> bool" where
  "dist_less (Fin a) (Fin b) = (a < b)"
| "dist_less (Fin a) PInf = True"
| "dist_less PInf d = False"

text \<open>
  The inner loop of the greedy step over \<open>wall_spacings.items()\<close>, for one candidate
  position: it threads \<open>(best_spacing, best_wall_id)\<close>. Comparing the \<open>None\<close> of a query
  that fell through with a number is a \<open>TypeError\<close>.
\<close>

fun choose_wall ::
  "int \<Rightarrow> real \<Rightarrow> real \<Rightarrow> (nat \<times> real list) list \<Rightarrow> (dist \<times> nat) option
     \<Rightarrow> py_error + (dist \<times> nat) option" where
  "choose_wall lpw desired_spacing cum_dist [] best = Inr best"
| "choose_wall lpw desired_spacing cum_dist ((wall_id, spacings) # ws) best =
     (if int (length spacings) \<ge> lpw then choose_wall lpw desired_spacing cum_dist ws best
      else
        (case query_dist_from_line_points cum_dist spacings of
           None \<Rightarrow> Inl TypeError
         | Some spacing \<Rightarrow>
             if dist_less spacing (Fin desired_spacing)
             then choose_wall lpw desired_spacing cum_dist ws best
             else if (case best of None \<Rightarrow> True
                      | Some (best_spacing, _) \<Rightarrow> dist_less spacing best_spacing)
             then choose_wall lpw desired_spacing cum_dist ws (Some (spacing, wall_id))
             else choose_wall lpw desired_spacing cum_dist ws best))"

text \<open>One iteration of the outer loop: the candidate is skipped, or placed on the best wall.\<close>

definition place_candidate ::
  "int \<Rightarrow> real \<Rightarrow> real \<Rightarrow> node list \<Rightarrow> node \<times> real \<Rightarrow> (nat \<times> real list) list
     \<Rightarrow> py_error + (nat \<times> real list) list" where
  "place_candidate lpw desired_spacing bare all_tied_nodes cand wall_spacings =
     (case cand of (n, cum_dist) \<Rightarrow>
        if n \<in> set all_tied_nodes \<or> cum_dist < bare then Inr wall_spacings
        else
          (case choose_wall lpw desired_spacing cum_dist wall_spacings None of
             Inl err \<Rightarrow> Inl err
           | Inr None \<Rightarrow> Inr wall_spacings
           | Inr (Some (best_spacing, best_wall_id)) \<Rightarrow>
               (case map_of wall_spacings best_wall_id of
                  None \<Rightarrow> Inl KeyError
                | Some spacings \<Rightarrow>
                    Inr (dict_set wall_spacings best_wall_id (sort (spacings @ [cum_dist]))))))"

fun greedy_loop ::
  "int \<Rightarrow> real \<Rightarrow> real \<Rightarrow> node list \<Rightarrow> (node \<times> real) list \<Rightarrow> (nat \<times> real list) list
     \<Rightarrow> py_error + (nat \<times> real list) list" where
  "greedy_loop lpw desired_spacing bare all_tied_nodes [] wall_spacings = Inr wall_spacings"
| "greedy_loop lpw desired_spacing bare all_tied_nodes (cand # cands) wall_spacings =
     (case place_candidate lpw desired_spacing bare all_tied_nodes cand wall_spacings of
        Inl err \<Rightarrow> Inl err
      | Inr wall_spacings' \<Rightarrow>
          greedy_loop lpw desired_spacing bare all_tied_nodes cands wall_spacings')"

text \<open>
  \<open>np.cumsum(pts[:-1] - pts[1:])\<close>: without an axis, the cumulative sum runs over the
  flattened coordinate differences.
\<close>

definition flat_cum_dists :: "point list \<Rightarrow> real list" where
  "flat_cum_dists pts =
     cumsum (concat (map (\<lambda>(x, y, z). [x, y, z]) (map2 vsub (butlast pts) (tl pts))))"

text \<open>
  The part of \<open>assign_leaders\<close> after the capacity check found room. Its result, the
  final \<open>wall_spacings\<close>, is a local of the source and is dropped by the caller.
\<close>

definition greedy_phase ::
  "params \<Rightarrow> int \<Rightarrow> graph_dual \<Rightarrow> registry \<Rightarrow> py_error + (nat \<times> real list) list" where
  "greedy_phase ps lpw t reg =
     (let desired_spacing = (case leader_spacing ps of None \<Rightarrow> 9 / 10 | Some x \<Rightarrow> x) in
      case search_branches_unique t 0 of
        Inl err \<Rightarrow> Inl err
      | Inr root_branch_id \<Rightarrow>
          (case map_of (branches t) root_branch_id of
             None \<Rightarrow> Inl KeyError
           | Some root_branch \<Rightarrow>
               let root_nodes = nodes root_branch;
                   cum_dists = flat_cum_dists (points root_branch)
               in
               (case to_spacings reg of
                  Inl err \<Rightarrow> Inl err
                | Inr (wall_spacings, all_tied_nodes) \<Rightarrow>
                    greedy_loop lpw desired_spacing
                      (case trunk_bare_dist ps of None \<Rightarrow> 5 | Some x \<Rightarrow> x)
                      all_tied_nodes (zip (tl root_nodes) cum_dists) wall_spacings)))"

text \<open>
  \<open>assign_leaders\<close>. The only mutation it can reach is \<open>stub_branch\<close>, inside
  \<open>manage_tied_branch\<close>; the state it leaves carries the graph as mutated so far.
\<close>

definition assign_leaders :: "strategy \<Rightarrow> strategy result" where
  "assign_leaders self =
     (case tree self of
        None \<Rightarrow> Raise AttributeError self
      | Some t \<Rightarrow>
          (case register_branches (wire_walls self) (params self) (search_branches t 1) ([], t) of
             Raise err (reg, t') \<Rightarrow> Raise err (self\<lparr>tree := Some t'\<rparr>)
           | Done (reg, t') \<Rightarrow>
               let leaders_per_wall = (case leaders_per_wall (params self) of
                                         None \<Rightarrow> 5 | Some n \<Rightarrow> n);
                   self' = self\<lparr>tree := Some t'\<rparr>
               in
               (case wire_walls self of
                  WallMap m \<Rightarrow> Raise TypeError self'
                | WallCount n \<Rightarrow>
                    (case capacity_check leaders_per_wall [0..<nat n] reg True of
                       Inl err \<Rightarrow> Raise err self'
                     | Inr (reg', is_full) \<Rightarrow>
                         if \<not> is_full then
                           (case greedy_phase (params self) leaders_per_wall t' reg' of
                              Inl err \<Rightarrow> Raise err self'
                            | Inr wall_spacings \<Rightarrow> Done self')
                         else Done self'))))"

text \<open>\<open>rub_off_trunk_buds\<close> is \<open>pass\<close> in the source.\<close>

definition rub_off_trunk_buds :: "strategy \<Rightarrow> strategy" where
  "rub_off_trunk_buds self = self"

definition examine_leaders :: "strategy \<Rightarrow> strategy result" where
  "examine_leaders self =
     (case tree self of
        None \<Rightarrow> Raise AttributeError self
      | Some t \<Rightarrow>
          (case search_branches_unique t 0 of
             Inl err \<Rightarrow> Raise err self
           | Inr root_branch \<Rightarrow>
               (case map_of (branches t) root_branch of
                  None \<Rightarrow> Raise KeyError self
                | Some b \<Rightarrow>
                    assign_leaders
                      (if length_b b < 5 then rub_off_trunk_buds self else self))))"

definition apply_strategy :: "curve_fit \<Rightarrow> strategy \<Rightarrow> strategy result" where
  "apply_strategy curves self =
     (case tie_down_trunk curves self of
        Raise err self' \<Rightarrow> Raise err self'
      | Done self' \<Rightarrow> examine_leaders self')"

text \<open>
  Specification-side: the positions of a wire are pairwise at least \<open>d\<close> apart.
\<close>

fun apart :: "real \<Rightarrow> real list \<Rightarrow> bool" where
  "apart d [] = True"
| "apart d (x # xs) = (list_all (\<lambda>y. d \<le> \<bar>x - y\<bar>) xs \<and> apart d xs)"

section \<open>A concrete plant\<close>

text \<open>
  A trunk of three nodes along the x axis with two internodes of length 10, one trunk
  target whose projection is the point \<open>(0, 9, 0)\<close> at distance 1, and a curve fit that
  converges to the straight curve of length 9 towards that point, sampled at 10 points.
\<close>

definition ex_curve :: "point list" where
  "ex_curve = [(0, 0, 0), (0, 1, 0), (0, 2, 0), (0, 3, 0), (0, 4, 0),
               (0, 5, 0), (0, 6, 0), (0, 7, 0), (0, 8, 0), (0, 9, 0)]"

definition ex_curves :: curve_fit where
  "ex_curves start target_pt tangent = Some ex_curve"

definition ex_target :: target where
  "ex_target pts = (1, (0, 9, 0))"

definition ex_trunk :: branch where
  "ex_trunk = \<lparr>generation = 0, nodes = [0, 1, 2],
               points = [(0, 0, 0), (10, 0, 0), (20, 0, 0)], length_b = 20\<rparr>"

definition no_modules :: edge where
  "no_modules = \<lparr>pre_modules = [], post_modules = []\<rparr>"

definition ex_tree :: graph_dual where
  "ex_tree = \<lparr>branches = [(0, ex_trunk)],
              edges = [((0, 1), no_modules), ((1, 2), no_modules)],
              guides = [], stubs = []\<rparr>"

definition ex_params :: params where
  "ex_params = \<lparr>leaders_per_wall = None, leader_spacing = None,
                trunk_bare_dist = None, leader_excess_stub = None\<rparr>"

definition ex_strategy :: strategy where
  "ex_strategy = set_tree (UFOPruningStrategy [ex_target] (WallCount 1) ex_params) ex_tree"

text \<open>A trunk whose two nodes coincide: its untied tail has arc length zero.\<close>

definition flat_trunk :: branch where
  "flat_trunk = \<lparr>generation = 0, nodes = [0, 1],
                 points = [(0, 0, 0), (0, 0, 0)], length_b = 0\<rparr>"

definition flat_tree :: graph_dual where
  "flat_tree = \<lparr>branches = [(0, flat_trunk)], edges = [((0, 1), no_modules)],
                guides = [], stubs = []\<rparr>"

definition flat_strategy :: strategy where
  "flat_strategy = set_tree (UFOPruningStrategy [ex_target] (WallCount 1) ex_params) flat_tree"

text \<open>
  A plant with a generation-1 branch of four nodes, tied to wire 0 of wall 0 on its last
  edge and carrying a further \<open>Tie\<close> module on its second edge.
\<close>

definition tied_leader :: branch where
  "tied_leader = \<lparr>generation = 1, nodes = [10, 11, 12, 13],
                  points = [(10, 0, 0), (10, 1, 0), (10, 2, 0), (10, 3, 0)], length_b = 3\<rparr>"

definition tied_tree :: graph_dual where
  "tied_tree = \<lparr>branches = [(0, ex_trunk), (3, tied_leader)],
                edges = [((0, 1), no_modules), ((1, 2), no_modules),
                         ((10, 11), no_modules),
                         ((11, 12), \<lparr>pre_modules = [(''Tie'', [7, 0])], post_modules = []\<rparr>),
                         ((12, 13), \<lparr>pre_modules = [(''Tie'', [0, 0])], post_modules = []\<rparr>)],
                guides = [], stubs = []\<rparr>"

text \<open>
  A plant in the terminal state: the controller's one trunk target is tied, its one wall
  has one wire and a quota of one leader, and the generation-1 branch is tied to that
  wire on its last edge.
\<close>

definition full_tree :: graph_dual where
  "full_tree = \<lparr>branches = [(0, ex_trunk), (3, tied_leader)],
                edges = [((0, 1), no_modules), ((1, 2), no_modules),
                         ((10, 11), no_modules), ((11, 12), no_modules),
                         ((12, 13), \<lparr>pre_modules = [(''Tie'', [0, 0])], post_modules = []\<rparr>)],
                guides = [], stubs = []\<rparr>"

definition full_strategy :: strategy where
  "full_strategy =
     \<lparr>trunk_targets = [ex_target], wire_walls = WallMap [(0, [ex_target])],
      params = ex_params\<lparr>leaders_per_wall := Some 1\<rparr>, tree = Some full_tree,
      next_trunk_target = 1, leaders_assigned = False\<rparr>"

section \<open>Properties of the distance query\<close>

lemma scan_pairs_sorted:
  "sorted (x # xs) \<Longrightarrow> x \<le> p \<Longrightarrow> p < last (x # xs) \<Longrightarrow>
   scan_pairs p (zip (butlast (x # xs)) xs) =
     Some (min (p - lower_nb p (x # xs)) (upper_nb p (x # xs) - p))"
proof (induction xs arbitrary: x)
  case Nil
  then show ?case by simp
next
  case (Cons y ys)
  show ?case
  proof (cases "p < y")
    case True
    have "\<forall>v\<in>set ys. p < v" using Cons.prems(1) True by auto
    then have f: "filter (\<lambda>v. v \<le> p) ys = []" by (auto simp: filter_empty_conv)
    show ?thesis using True Cons.prems f by (simp add: lower_nb_def upper_nb_def)
  next
    case False
    then have yp: "y \<le> p" by simp
    have s: "sorted (y # ys)" using Cons.prems(1) by simp
    have l: "p < last (y # ys)" using Cons.prems(3) by simp
    have ih: "scan_pairs p (zip (butlast (y # ys)) ys) =
       Some (min (p - lower_nb p (y # ys)) (upper_nb p (y # ys) - p))"
      by (rule Cons.IH[OF s yp l])
    show ?thesis using False yp ih Cons.prems(2) by (simp add: lower_nb_def upper_nb_def)
  qed
qed

lemma qd_interior:
  assumes "sorted s" "s \<noteq> []" "hd s \<le> p" "p < last s"
  shows "query_dist_from_line_points p s = Some (Fin (min (p - lower_nb p s) (upper_nb p s - p)))"
proof -
  obtain x xs where s: "s = x # xs" using assms(2) by (cases s) auto
  have "scan_pairs p (zip (butlast (x # xs)) xs) =
     Some (min (p - lower_nb p (x # xs)) (upper_nb p (x # xs) - p))"
    using assms unfolding s by (intro scan_pairs_sorted) auto
  then show ?thesis using assms unfolding s query_dist_from_line_points_def by simp
qed

lemma last_filter_sorted_max:
  "sorted s \<Longrightarrow> v \<in> set s \<Longrightarrow> P v \<Longrightarrow> v \<le> last (filter P s)"
proof (induction s)
  case Nil then show ?case by simp
next
  case (Cons a s)
  show ?case
  proof (cases "filter P s = []")
    case True
    then have "\<not> (v \<in> set s)" using Cons.prems(3) by (auto simp: filter_empty_conv)
    then show ?thesis using Cons.prems True by auto
  next
    case False
    then have "last (filter P s) \<in> set s" using last_in_set[OF False] by auto
    then have al: "a \<le> last (filter P s)" using Cons.prems(1) by auto
    show ?thesis
    proof (cases "v = a")
      case True then show ?thesis using al False by simp
    next
      case F2: False
      then have "v \<in> set s" using Cons.prems(2) by simp
      then have "v \<le> last (filter P s)" using Cons.IH Cons.prems by simp
      then show ?thesis using False by simp
    qed
  qed
qed

lemma sorted_le_last:
  "sorted s \<Longrightarrow> v \<in> set s \<Longrightarrow> v \<le> last (s :: real list)"
  by (induction s) auto

lemma hd_filter_sorted_min:
  "sorted s \<Longrightarrow> v \<in> set s \<Longrightarrow> P v \<Longrightarrow> hd (filter P s) \<le> v"
  by (induction s) auto

lemma lower_nb_props:
  assumes "sorted s" "s \<noteq> []" "hd s \<le> p"
  shows "lower_nb p s \<in> set s" "lower_nb p s \<le> p" "\<forall>v\<in>set s. v \<le> p \<longrightarrow> v \<le> lower_nb p s"
proof -
  let ?f = "filter (\<lambda>v. v \<le> p) s"
  have "hd s \<in> set s" using assms(2) by simp
  then have "hd s \<in> set ?f" using assms(3) by simp
  then have ne: "?f \<noteq> []" by (metis empty_iff empty_set)
  have "last ?f \<in> set ?f" using ne by (rule last_in_set)
  then show "lower_nb p s \<in> set s" "lower_nb p s \<le> p" by (auto simp: lower_nb_def)
  show "\<forall>v\<in>set s. v \<le> p \<longrightarrow> v \<le> lower_nb p s"
    unfolding lower_nb_def
    using last_filter_sorted_max[OF assms(1), where P="\<lambda>v. v \<le> p"] by simp
qed

lemma upper_nb_props:
  assumes "sorted s" "s \<noteq> []" "p < last s"
  shows "upper_nb p s \<in> set s" "p < upper_nb p s" "\<forall>v\<in>set s. p < v \<longrightarrow> upper_nb p s \<le> v"
proof -
  let ?f = "filter (\<lambda>v. p < v) s"
  have "last s \<in> set s" using assms(2) by simp
  then have "last s \<in> set ?f" using assms(3) by simp
  then have ne: "?f \<noteq> []" by (metis empty_iff empty_set)
  have "hd ?f \<in> set ?f" using ne by (rule hd_in_set)
  then show "upper_nb p s \<in> set s" "p < upper_nb p s" by (auto simp: upper_nb_def)
  show "\<forall>v\<in>set s. p < v \<longrightarrow> upper_nb p s \<le> v"
    unfolding upper_nb_def
    using hd_filter_sorted_min[OF assms(1), where P="\<lambda>v. p < v"] by simp
qed

lemma qd_nearest:
  assumes "sorted s" "s \<noteq> []"
  shows "query_dist_from_line_points p s = Some (Fin (nearest p s))"
proof -
  consider (lo) "p < hd s" | (hi) "hd s \<le> p" "last s \<le> p" | (mid) "hd s \<le> p" "p < last s"
    by linarith
  then show ?thesis
  proof cases
    case lo
    have lb: "\<forall>v\<in>set s. hd s \<le> v" using assms by (cases s) auto
    have hin: "hd s \<in> set s" using assms(2) by simp
    have "Min ((\<lambda>v. \<bar>p - v\<bar>) ` set s) = hd s - p"
    proof (rule Min_eqI)
      show "finite ((\<lambda>v. \<bar>p - v\<bar>) ` set s)" by simp
    next
      fix y assume "y \<in> (\<lambda>v. \<bar>p - v\<bar>) ` set s"
      then obtain v where v: "v \<in> set s" "y = \<bar>p - v\<bar>" by auto
      have "hd s \<le> v" using lb v(1) by blast
      then show "hd s - p \<le> y" using v(2) by simp
    next
      have "hd s - p = \<bar>p - hd s\<bar>" using lo by simp
      then show "hd s - p \<in> (\<lambda>v. \<bar>p - v\<bar>) ` set s" using hin by (metis image_eqI)
    qed
    then show ?thesis using lo assms(2) by (simp add: query_dist_from_line_points_def nearest_def)
  next
    case hi
    have ub: "\<forall>v\<in>set s. v \<le> last s" using sorted_le_last[OF assms(1)] by blast
    have lin: "last s \<in> set s" using assms(2) by simp
    have "Min ((\<lambda>v. \<bar>p - v\<bar>) ` set s) = p - last s"
    proof (rule Min_eqI)
      show "finite ((\<lambda>v. \<bar>p - v\<bar>) ` set s)" by simp
    next
      fix y assume "y \<in> (\<lambda>v. \<bar>p - v\<bar>) ` set s"
      then obtain v where v: "v \<in> set s" "y = \<bar>p - v\<bar>" by auto
      have "v \<le> last s" using ub v(1) by blast
      then show "p - last s \<le> y" using v(2) by simp
    next
      have "p - last s = \<bar>p - last s\<bar>" using hi by simp
      then show "p - last s \<in> (\<lambda>v. \<bar>p - v\<bar>) ` set s" using lin by (metis image_eqI)
    qed
    then show ?thesis using hi assms(2) by (simp add: query_dist_from_line_points_def nearest_def)
  next
    case mid
    note L = lower_nb_props[OF assms mid(1)]
    note U = upper_nb_props[OF assms mid(2)]
    have "Min ((\<lambda>v. \<bar>p - v\<bar>) ` set s) = min (p - lower_nb p s) (upper_nb p s - p)"
    proof (rule Min_eqI)
      show "finite ((\<lambda>v. \<bar>p - v\<bar>) ` set s)" by simp
    next
      fix y assume "y \<in> (\<lambda>v. \<bar>p - v\<bar>) ` set s"
      then obtain v where v: "v \<in> set s" "y = \<bar>p - v\<bar>" by auto
      show "min (p - lower_nb p s) (upper_nb p s - p) \<le> y"
      proof (cases "v \<le> p")
        case True
        then have "v \<le> lower_nb p s" using L(3) v(1) by blast
        then show ?thesis using v(2) True by simp
      next
        case False
        then have "upper_nb p s \<le> v" using U(3) v(1) by auto
        then show ?thesis using v(2) False by simp
      qed
    next
      show "min (p - lower_nb p s) (upper_nb p s - p) \<in> (\<lambda>v. \<bar>p - v\<bar>) ` set s"
      proof (cases "p - lower_nb p s \<le> upper_nb p s - p")
        case True
        then have "min (p - lower_nb p s) (upper_nb p s - p) = \<bar>p - lower_nb p s\<bar>"
          using L(2) by simp
        then show ?thesis using L(1) by (metis image_eqI)
      next
        case False
        then have "min (p - lower_nb p s) (upper_nb p s - p) = \<bar>p - upper_nb p s\<bar>"
          using U(2) by simp
        then show ?thesis using U(1) by (metis image_eqI)
      qed
    qed
    then show ?thesis using qd_interior[OF assms mid] by (simp add: nearest_def)
  qed
qed



text \<open>
  Claim C9. The distance query is symmetric under reflection: for every position \<open>p\<close>,
  sorted list \<open>s\<close> and reflection point \<open>c\<close>, the result for \<open>2c - p\<close> against the
  re-sorted reflected list equals the result for \<open>p\<close> against \<open>s\<close>.
\<close>

theorem query_dist_reflection:
  assumes "sorted s"
  shows "query_dist_from_line_points (2 * c - p) (sort (map (\<lambda>v. 2 * c - v) s)) =
         query_dist_from_line_points p s"
proof (cases "s = []")
  case True then show ?thesis by (simp add: query_dist_from_line_points_def)
next
  case False
  let ?r = "sort (map (\<lambda>v. 2 * c - v) s)"
  have ne: "?r \<noteq> []" using False by (metis length_sort length_map length_0_conv)
  have "\<And>v. \<bar>2 * c - p - (2 * c - v)\<bar> = \<bar>p - v\<bar>" by simp
  then have "(\<lambda>v. \<bar>2 * c - p - v\<bar>) ` set ?r = (\<lambda>v. \<bar>p - v\<bar>) ` set s"
    by (simp add: image_image)
  then have "nearest (2 * c - p) ?r = nearest p s" by (simp add: nearest_def)
  then show ?thesis using qd_nearest[OF assms False] qd_nearest[OF sorted_sort ne] by simp
qed

text \<open>C9 at \<open>s = [2, 5]\<close>, \<open>p = 3.6\<close>, \<open>c = 1\<close>.\<close>

theorem query_dist_reflection_witness:
  "sorted [2, 5 :: real] \<and>
   query_dist_from_line_points (2 * 1 - 18 / 5) (sort (map (\<lambda>v. 2 * 1 - v) [2, 5])) = Some (Fin (7 / 5)) \<and>
   query_dist_from_line_points (18 / 5) [2, 5] = Some (Fin (7 / 5))"
  using query_dist_reflection [of "[2, 5]" 1 "18 / 5"]
  by (simp add: query_dist_from_line_points_def)

section \<open>Properties of the distance query on doubles\<close>

lemma overflow_bound_pos: "0 < overflow_bound"
  by (simp add: overflow_bound_def)

lemma to_double_sub:
  "0 \<le> a - b \<Longrightarrow> d_sub (Finite a) (Finite b) = to_double (a - b)"
  using overflow_bound_pos by (simp add: to_double_def)

lemma py_min_to_double:
  "py_min (to_double a) (to_double b) = to_double (min a b)"
  by (simp add: py_min_def to_double_def min_def)

lemma scan_pairs_double_finite:
  "scan_pairs_double (Finite x) (map (\<lambda>(l, u). (Finite l, Finite u)) ps)
     = map_option to_double (scan_pairs x ps)"
proof (induction ps)
  case Nil
  then show ?case by simp
next
  case (Cons a ps)
  obtain l u where a: "a = (l, u)" by (cases a)
  show ?case
  proof (cases "l \<le> x \<and> x < u")
    case True
    then have "d_sub (Finite x) (Finite l) = to_double (x - l)"
      "d_sub (Finite u) (Finite x) = to_double (u - x)"
      by (simp_all add: to_double_sub del: d_sub.simps)
    then show ?thesis using True a by (simp add: py_min_to_double del: d_sub.simps)
  next
    case False
    then show ?thesis using a Cons.IH by auto
  qed
qed

lemma zip_finite:
  "zip (butlast (map Finite xs)) (tl (map Finite xs))
     = map (\<lambda>(l, u). (Finite l, Finite u)) (zip (butlast xs) (tl xs))"
  by (simp add: map_butlast[symmetric] map_tl[symmetric] zip_map_map)

lemma query_dist_double_finite:
  "query_dist_double (Finite x) (map Finite xs)
     = map_option (\<lambda>d. case d of Fin r \<Rightarrow> to_double r | PInf \<Rightarrow> PosInf)
         (query_dist_from_line_points x xs)"
proof (cases "xs = []")
  case True
  then show ?thesis by (simp add: query_dist_double_def query_dist_from_line_points_def)
next
  case False
  then have h: "hd (map Finite xs) = Finite (hd xs)" "last (map Finite xs) = Finite (last xs)"
    by (simp_all add: hd_map last_map)
  show ?thesis
  proof (cases "x < hd xs")
    case True
    then show ?thesis using False h
      by (simp add: query_dist_double_def query_dist_from_line_points_def to_double_sub
          del: d_sub.simps)
  next
    case nlo: False
    show ?thesis
    proof (cases "last xs \<le> x")
      case True
      then show ?thesis using False h nlo
        by (simp add: query_dist_double_def query_dist_from_line_points_def to_double_sub
          del: d_sub.simps)
    next
      case nhi: False
      have "scan_pairs_double (Finite x) (zip (butlast (map Finite xs)) (tl (map Finite xs)))
          = map_option to_double (scan_pairs x (zip (butlast xs) (tl xs)))"
        by (simp only: zip_finite scan_pairs_double_finite)
      then show ?thesis using False h nlo nhi
        by (simp add: query_dist_double_def query_dist_from_line_points_def
            option.map_comp comp_def)
    qed
  qed
qed

lemma nearest_nonneg: "s \<noteq> [] \<Longrightarrow> 0 \<le> nearest p s"
  by (simp add: nearest_def Min_ge_iff)

text \<open>
  Claim C10, as stated, fails on doubles. For a NaN position and the sorted list \<open>[0]\<close>
  every comparison is false, the scan falls through and the function returns \<open>None\<close>;
  for the position \<open>10^308\<close> and the sorted, non-empty list \<open>[-10^308]\<close> the difference
  overflows and the result is infinite.
\<close>

theorem query_dist_double_counterexample:
  "sorted_wrt d_le [Finite 0] \<and>
   query_dist_double NaN [Finite 0] = None \<and>
   sorted_wrt d_le [Finite (- (10 ^ 308))] \<and>
   query_dist_double (Finite (10 ^ 308)) [Finite (- (10 ^ 308))] = Some PosInf \<and>
   [Finite (- (10 ^ 308))] \<noteq> []"
proof -
  have big: "overflow_bound \<le> 10 ^ 308 - - (10 ^ 308)" by (simp add: overflow_bound_def)
  have "d_sub (Finite (10 ^ 308)) (Finite (- (10 ^ 308))) = PosInf"
    using big by (simp only: d_sub.simps if_True)
  then have "query_dist_double (Finite (10 ^ 308)) [Finite (- (10 ^ 308))] = Some PosInf"
    by (simp add: query_dist_double_def del: d_sub.simps)
  then show ?thesis by (simp add: query_dist_double_def)
qed

text \<open>
  Claim C10, amended. For every finite position \<open>p\<close> and every sorted list \<open>s\<close> of
  finite values the distance query returns a defined, non-negative value; when the
  neighbour scan is reached it finds an enclosing pair and does not fall through; and
  the result is infinite only when \<open>s\<close> is empty or the distance to the nearest element
  overflows the double range.
\<close>

theorem query_dist_double_defined:
  assumes "sorted xs"
  shows "(\<exists>d. query_dist_double (Finite x) (map Finite xs) = Some d \<and> d_nonneg d \<and>
              (d = PosInf \<longrightarrow> xs = [] \<or> overflow_bound \<le> nearest x xs)) \<and>
         (xs \<noteq> [] \<and> hd xs \<le> x \<and> x < last xs \<longrightarrow>
            scan_pairs_double (Finite x) (zip (butlast (map Finite xs)) (tl (map Finite xs)))
              \<noteq> None)"
proof (cases "xs = []")
  case True
  then show ?thesis by (simp add: query_dist_double_def d_nonneg_def)
next
  case False
  have q: "query_dist_from_line_points x xs = Some (Fin (nearest x xs))"
    using qd_nearest[OF assms False] .
  then have r: "query_dist_double (Finite x) (map Finite xs) = Some (to_double (nearest x xs))"
    by (simp add: query_dist_double_finite)
  have n: "0 \<le> nearest x xs" using False by (rule nearest_nonneg)
  have first: "\<exists>d. query_dist_double (Finite x) (map Finite xs) = Some d \<and> d_nonneg d \<and>
              (d = PosInf \<longrightarrow> xs = [] \<or> overflow_bound \<le> nearest x xs)"
    using r n by (simp add: to_double_def d_nonneg_def)
  have second: "xs \<noteq> [] \<and> hd xs \<le> x \<and> x < last xs \<longrightarrow>
            scan_pairs_double (Finite x) (zip (butlast (map Finite xs)) (tl (map Finite xs)))
              \<noteq> None"
  proof
    assume i: "xs \<noteq> [] \<and> hd xs \<le> x \<and> x < last xs"
    then have h: "hd (map Finite xs) = Finite (hd xs)" "last (map Finite xs) = Finite (last xs)"
      by (simp_all add: hd_map last_map)
    have "query_dist_double (Finite x) (map Finite xs)
        = scan_pairs_double (Finite x) (zip (butlast (map Finite xs)) (tl (map Finite xs)))"
      using i h by (simp add: query_dist_double_def)
    then have "scan_pairs_double (Finite x) (zip (butlast (map Finite xs)) (tl (map Finite xs)))
        = Some (to_double (nearest x xs))"
      using r by (simp only:)
    then show "scan_pairs_double (Finite x) (zip (butlast (map Finite xs)) (tl (map Finite xs)))
              \<noteq> None"
      by simp
  qed
  show ?thesis using first second by blast
qed

text \<open>
  The amended C10 at \<open>s = [2, 5]\<close>, \<open>p = 3.6\<close>, where the neighbour scan is reached, and
  at the overflowing input.
\<close>

theorem query_dist_double_defined_witness:
  "sorted [2, 5 :: real] \<and>
   query_dist_double (Finite (18 / 5)) (map Finite [2, 5]) = Some (Finite (7 / 5)) \<and>
   d_nonneg (Finite (7 / 5)) \<and>
   scan_pairs_double (Finite (18 / 5)) (zip (butlast (map Finite [2, 5])) (tl (map Finite [2, 5])))
     \<noteq> None \<and>
   query_dist_double (Finite (10 ^ 308)) (map Finite [- (10 ^ 308)]) = Some PosInf \<and>
   overflow_bound \<le> nearest (10 ^ 308) [- (10 ^ 308)]"
proof -
  have a: "sorted [2, 5 :: real]" by simp
  have small: "\<not> overflow_bound \<le> 7 / 5" by (simp add: overflow_bound_def)
  have big: "overflow_bound \<le> 10 ^ 308 - - (10 ^ 308)" by (simp add: overflow_bound_def)
  have q1: "query_dist_from_line_points (18 / 5) [2, 5] = Some (Fin (7 / 5))"
    by (simp add: query_dist_from_line_points_def)
  have d: "query_dist_double (Finite (18 / 5)) (map Finite [2, 5]) = Some (Finite (7 / 5))"
    using small by (simp only: query_dist_double_finite q1 to_double_def
        option.map dist.case if_False)
  have q2: "query_dist_from_line_points (10 ^ 308) [- (10 ^ 308)]
      = Some (Fin (10 ^ 308 - - (10 ^ 308)))"
    by (simp add: query_dist_from_line_points_def)
  have c: "query_dist_double (Finite (10 ^ 308)) (map Finite [- (10 ^ 308)]) = Some PosInf"
    using big by (simp only: query_dist_double_finite q2 to_double_def
        option.map dist.case if_True)
  have n: "nearest (10 ^ 308) [- (10 ^ 308)] = 10 ^ 308 - - (10 ^ 308)"
    by (simp add: nearest_def)
  have e: "overflow_bound \<le> nearest (10 ^ 308) [- (10 ^ 308)]"
    using big by (simp only: n)
  have f: "d_nonneg (Finite (7 / 5))" by (simp add: d_nonneg_def)
  have "scan_pairs_double (Finite (18 / 5))
      (zip (butlast (map Finite [2, 5])) (tl (map Finite [2, 5]))) \<noteq> None"
    using query_dist_double_defined [OF a, of "18 / 5"] by simp
  then show ?thesis using a d f c e by blast
qed

section \<open>Properties of the trunk tie-down\<close>

subsection \<open>The concrete plant, evaluated\<close>

lemma norm3_x: "norm3 (x, 0, 0) = \<bar>x\<bar>" by simp
lemma norm3_y: "norm3 (0, y, 0) = \<bar>y\<bar>" by simp

lemma ex_trunk_tail: "trunk_tail ex_tree = Inr ([0, 1, 2], [(0, 0, 0), (10, 0, 0), (20, 0, 0)])"
  by (simp add: trunk_tail_def search_branches_unique_def search_branches_def ex_tree_def
      ex_trunk_def no_modules_def flags_of_def)

lemma ex_cumul: "cumsum (seg_lens [(0, 0, 0), (10, 0, 0), (20, 0, 0)]) = [10, 20]"
  by (simp add: cumsum_def seg_lens_def norm3_x del: norm3.simps)

lemma ex_curve_len: "sum_list (seg_lens ex_curve) = 9"
  by (simp add: seg_lens_def ex_curve_def norm3_y del: norm3.simps)

lemma ex_idx: "tie_down_node_idx [10, 20] 9 (Suc (Suc (Suc 0))) = 2"
  by (simp add: tie_down_node_idx_def argmax_bool_def py_or_def)

lemma take3: "take (nat 3) [a, b, c] = [a, b, c]"
  by (simp add: eval_nat_numeral)

lemma ex_tie: "tie_down_trunk ex_curves ex_strategy =
   Done (ex_strategy\<lparr>tree := Some (ex_tree\<lparr>guides := [([0, 1, 2], ex_curve, ''GlobalGuide'')]\<rparr>),
                     next_trunk_target := 1\<rparr>)"
proof -
  have s: "next_trunk_target ex_strategy = 0" "trunk_targets ex_strategy = [ex_target]"
    "tree ex_strategy = Some ex_tree"
    by (simp_all add: ex_strategy_def set_tree_def UFOPruningStrategy_def)
  have g: "guides ex_tree = []" by (simp add: ex_tree_def)
  show ?thesis
    unfolding tie_down_trunk_def Let_def
    by (simp add: s ex_trunk_tail ex_cumul ex_target_def norm3_y ex_curves_def ex_curve_len
        ex_idx take3 set_guide_on_nodes_def g del: norm3.simps)
qed

subsection \<open>The counter \<open>next_trunk_target\<close>\<close>

lemma tie_down_trunk_cases:
  "tie_down_trunk curves self = Done self \<or>
   (\<exists>e. tie_down_trunk curves self = Raise e self) \<or>
   (next_trunk_target self < length (trunk_targets self) \<and>
    (\<exists>t ns start tp tg cp.
       tree self = Some t \<and> curves start tp tg = Some cp \<and>
       tie_down_trunk curves self =
         Done (self\<lparr>tree := Some (set_guide_on_nodes t ns cp ''GlobalGuide''),
                     next_trunk_target := next_trunk_target self + 1\<rparr>)))"
  unfolding tie_down_trunk_def Let_def
  apply (simp split: option.splits sum.splits prod.splits list.splits
      del: split_paired_Ex split_paired_All)
  apply (intro allI impI conjI)
   apply blast
  apply blast
  done

lemma tie_down_trunk_state:
  "state_of (tie_down_trunk curves self) = self \<or>
   (next_trunk_target self < length (trunk_targets self) \<and>
    (\<exists>t ns start tp tg cp.
       tree self = Some t \<and> curves start tp tg = Some cp \<and>
       state_of (tie_down_trunk curves self) =
         self\<lparr>tree := Some (set_guide_on_nodes t ns cp ''GlobalGuide''),
               next_trunk_target := next_trunk_target self + 1\<rparr>))"
proof -
  consider (d) "tie_down_trunk curves self = Done self"
    | (r) e where "tie_down_trunk curves self = Raise e self"
    | (t) "next_trunk_target self < length (trunk_targets self)"
        "\<exists>t ns start tp tg cp.
       tree self = Some t \<and> curves start tp tg = Some cp \<and>
       tie_down_trunk curves self =
         Done (self\<lparr>tree := Some (set_guide_on_nodes t ns cp ''GlobalGuide''),
                     next_trunk_target := next_trunk_target self + 1\<rparr>)"
    using tie_down_trunk_cases[of curves self] by blast
  then show ?thesis
  proof cases
    case d then show ?thesis by simp
  next
    case r then show ?thesis by simp
  next
    case t
    from t(2) obtain g ns start tp tg cp where
      "tree self = Some g" "curves start tp tg = Some cp"
      "tie_down_trunk curves self =
         Done (self\<lparr>tree := Some (set_guide_on_nodes g ns cp ''GlobalGuide''),
                     next_trunk_target := next_trunk_target self + 1\<rparr>)"
      by blast
    then have "tree self = Some g \<and> curves start tp tg = Some cp \<and>
       state_of (tie_down_trunk curves self) =
         self\<lparr>tree := Some (set_guide_on_nodes g ns cp ''GlobalGuide''),
               next_trunk_target := next_trunk_target self + 1\<rparr>" by simp
    then show ?thesis using t(1) by blast
  qed
qed

lemma tie_down_trunk_counter:
  "trunk_targets (state_of (tie_down_trunk curves self)) = trunk_targets self"
  "next_trunk_target self \<le> next_trunk_target (state_of (tie_down_trunk curves self))"
  "next_trunk_target (state_of (tie_down_trunk curves self)) \<le> next_trunk_target self + 1"
  "next_trunk_target self \<le> length (trunk_targets self) \<Longrightarrow>
   next_trunk_target (state_of (tie_down_trunk curves self)) \<le> length (trunk_targets self)"
  using tie_down_trunk_state[of curves self] by auto

lemma run_driver_counter:
  "trunk_targets (run_driver curves steps self) = trunk_targets self \<and>
   next_trunk_target self \<le> next_trunk_target (run_driver curves steps self) \<and>
   (next_trunk_target self \<le> length (trunk_targets self) \<longrightarrow>
    next_trunk_target (run_driver curves steps self) \<le> length (trunk_targets self))"
proof (induction steps arbitrary: self)
  case Nil
  then show ?case by simp
next
  case (Cons st steps)
  show ?case
  proof (cases st)
    case (SetTree t)
    then show ?thesis using Cons.IH[of "set_tree self t"] by (simp add: set_tree_def)
  next
    case TieDown
    let ?s = "state_of (tie_down_trunk curves self)"
    note c = tie_down_trunk_counter[where curves=curves and self=self]
    have "trunk_targets (run_driver curves steps ?s) = trunk_targets ?s"
      "next_trunk_target ?s \<le> next_trunk_target (run_driver curves steps ?s)"
      "next_trunk_target ?s \<le> length (trunk_targets ?s) \<longrightarrow>
        next_trunk_target (run_driver curves steps ?s) \<le> length (trunk_targets ?s)"
      using Cons.IH[of ?s] by simp_all
    then show ?thesis using TieDown c by auto
  qed
qed

text \<open>
  Claim C1. Over every sequence of calls to \<open>tie_down_trunk\<close> the counter
  \<open>next_trunk_target\<close> never decreases, a call changes the state only by a successful
  tie (the curve fit converged, the guide is set and the counter grows by exactly 1), and
  the counter never exceeds the number of trunk targets. The sequence is any run of the
  driver, from any state within the bound and in particular from the constructor's state.
\<close>

theorem next_trunk_target_steps:
  "(state_of (tie_down_trunk curves self) = self \<or>
    (next_trunk_target self < length (trunk_targets self) \<and>
     (\<exists>t ns start tp tg cp.
        tree self = Some t \<and> curves start tp tg = Some cp \<and>
        state_of (tie_down_trunk curves self) =
          self\<lparr>tree := Some (set_guide_on_nodes t ns cp ''GlobalGuide''),
                next_trunk_target := next_trunk_target self + 1\<rparr>))) \<and>
   next_trunk_target self \<le> next_trunk_target (state_of (tie_down_trunk curves self)) \<and>
   next_trunk_target (state_of (tie_down_trunk curves self)) \<le> next_trunk_target self + 1 \<and>
   next_trunk_target self \<le> next_trunk_target (run_driver curves steps self) \<and>
   (next_trunk_target self \<le> length (trunk_targets self) \<longrightarrow>
      next_trunk_target (run_driver curves steps self)
        \<le> length (trunk_targets (run_driver curves steps self))) \<and>
   next_trunk_target (run_driver curves steps (UFOPruningStrategy tts ww ps)) \<le> length tts"
proof -
  have "next_trunk_target (run_driver curves steps (UFOPruningStrategy tts ww ps)) \<le> length tts"
    using run_driver_counter[of curves steps "UFOPruningStrategy tts ww ps"]
    by (simp add: UFOPruningStrategy_def)
  then show ?thesis
    using tie_down_trunk_state[of curves self] tie_down_trunk_counter(2,3)[where curves=curves and self=self]
      run_driver_counter[of curves steps self]
    by simp
qed

text \<open>C1 on the concrete plant: the first call ties, later calls leave the counter at 1.\<close>

theorem next_trunk_target_steps_witness:
  "next_trunk_target ex_strategy \<le> length (trunk_targets ex_strategy) \<and>
   next_trunk_target ex_strategy = 0 \<and>
   next_trunk_target (state_of (tie_down_trunk ex_curves ex_strategy)) = 1 \<and>
   next_trunk_target (run_driver ex_curves [TieDown, TieDown, SetTree ex_tree, TieDown] ex_strategy) = 1 \<and>
   length (trunk_targets (run_driver ex_curves [TieDown, TieDown, SetTree ex_tree, TieDown] ex_strategy)) = 1"
proof -
  have s: "next_trunk_target ex_strategy = 0" "trunk_targets ex_strategy = [ex_target]"
    by (simp_all add: ex_strategy_def set_tree_def UFOPruningStrategy_def)
  have t: "state_of (tie_down_trunk ex_curves ex_strategy) =
      ex_strategy\<lparr>tree := Some (ex_tree\<lparr>guides := [([0, 1, 2], ex_curve, ''GlobalGuide'')]\<rparr>),
                     next_trunk_target := 1\<rparr>"
    by (simp add: ex_tie)
  have d: "\<And>s. next_trunk_target s = 1 \<Longrightarrow> trunk_targets s = [ex_target] \<Longrightarrow>
      tie_down_trunk ex_curves s = Done s"
    by (simp add: tie_down_trunk_def)
  have r: "run_driver ex_curves [TieDown, TieDown, SetTree ex_tree, TieDown] ex_strategy =
      ex_strategy\<lparr>tree := Some ex_tree, next_trunk_target := 1\<rparr>"
    by (simp add: t d s set_tree_def)
  have g: "next_trunk_target ex_strategy = 0 \<and>
     next_trunk_target (state_of (tie_down_trunk ex_curves ex_strategy)) = 1 \<and>
     next_trunk_target (run_driver ex_curves [TieDown, TieDown, SetTree ex_tree, TieDown] ex_strategy) = 1 \<and>
     length (trunk_targets (run_driver ex_curves [TieDown, TieDown, SetTree ex_tree, TieDown] ex_strategy)) = 1"
    unfolding r by (simp add: s t)
  have "next_trunk_target ex_strategy \<le> length (trunk_targets ex_strategy)"
    using next_trunk_target_steps [of ex_curves ex_strategy
        "[TieDown, TieDown, SetTree ex_tree, TieDown]" "[ex_target]" "WallCount 1" ex_params] g
    by linarith
  then show ?thesis using g by simp
qed

subsection \<open>A tail of zero arc length\<close>

lemma cumsum_from_empty: "cumsum_from a xs = [] \<longleftrightarrow> xs = []"
  by (cases xs) simp_all

lemma last_cumsum_from: "xs \<noteq> [] \<Longrightarrow> last (cumsum_from a xs) = a + sum_list xs"
  by (induction xs arbitrary: a) (auto simp: add.assoc cumsum_from_empty)

lemma cumsum_empty: "cumsum xs = [] \<longleftrightarrow> xs = []"
  by (cases xs) (simp_all add: cumsum_def)

text \<open>
  Claim C7. When the untied tail of the trunk has zero cumulative arc length,
  \<open>tie_down_trunk\<close> leaves the plant graph and \<open>next_trunk_target\<close> (the whole state) as
  they were; it returns normally whenever the tail has at least one segment.
\<close>

theorem zero_length_tail_no_action:
  assumes "tree self = Some t" and "trunk_tail t = Inr (tail_nodes, pts)"
    and "sum_list (seg_lens pts) = 0"
  shows "state_of (tie_down_trunk curves self) = self \<and>
         (seg_lens pts \<noteq> [] \<longrightarrow> tie_down_trunk curves self = Done self)"
proof (cases "seg_lens pts = []")
  case True
  then show ?thesis using assms by (simp add: tie_down_trunk_def cumsum_empty)
next
  case False
  then have "last (cumsum (seg_lens pts)) = 0"
    using assms(3) by (simp add: cumsum_def last_cumsum_from)
  then show ?thesis using assms False by (simp add: tie_down_trunk_def cumsum_empty)
qed

text \<open>C7 on the trunk whose two nodes coincide.\<close>

theorem zero_length_tail_no_action_witness:
  "tree flat_strategy = Some flat_tree \<and>
   trunk_tail flat_tree = Inr ([0, 1], [(0, 0, 0), (0, 0, 0)]) \<and>
   sum_list (seg_lens [(0, 0, 0), (0, 0, 0)]) = 0 \<and>
   seg_lens [(0, 0, 0), (0, 0, 0)] \<noteq> [] \<and>
   next_trunk_target flat_strategy < length (trunk_targets flat_strategy) \<and>
   tie_down_trunk ex_curves flat_strategy = Done flat_strategy"
proof -
  have a: "tree flat_strategy = Some flat_tree"
    by (simp add: flat_strategy_def set_tree_def)
  have b: "trunk_tail flat_tree = Inr ([0, 1], [(0, 0, 0), (0, 0, 0)])"
    by (simp add: trunk_tail_def search_branches_unique_def search_branches_def flat_tree_def
        flat_trunk_def no_modules_def flags_of_def)
  have c: "sum_list (seg_lens [(0, 0, 0), (0, 0, 0)]) = 0"
    by (simp add: seg_lens_def)
  have d: "seg_lens [(0, 0, 0), (0, 0, 0)] \<noteq> []"
    by (simp add: seg_lens_def)
  have e: "next_trunk_target flat_strategy < length (trunk_targets flat_strategy)"
    by (simp add: flat_strategy_def set_tree_def UFOPruningStrategy_def)
  show ?thesis
    using zero_length_tail_no_action [OF a b c, of ex_curves] a b c d e by simp
qed

subsection \<open>The fold index\<close>

lemma first_true_bound: "first_true bs = Some i \<Longrightarrow> i < length bs \<and> bs ! i \<and> (\<forall>j<i. \<not> bs ! j)"
proof (induction bs arbitrary: i)
  case Nil
  then show ?case by simp
next
  case (Cons b bs)
  show ?case
  proof (cases b)
    case True
    then show ?thesis using Cons.prems by simp
  next
    case False
    then obtain k where k: "first_true bs = Some k" "i = Suc k"
      using Cons.prems by auto
    have "k < length bs \<and> bs ! k \<and> (\<forall>j<k. \<not> bs ! j)" using Cons.IH[OF k(1)] .
    then show ?thesis using False k(2) by (auto simp: less_Suc_eq_0_disj)
  qed
qed

lemma first_true_none: "first_true bs = None \<longleftrightarrow> (\<forall>b\<in>set bs. \<not> b)"
  by (induction bs) auto

text \<open>
  What the expression computes: the first index plus one when that index is positive;
  the last node index both when no cumulative length exceeds the curve length and when
  the first one already does.
\<close>

lemma tie_down_node_idx_cases:
  "tie_down_node_idx cumul_lens curve_len n =
     (case first_true (map (\<lambda>c. c > curve_len) cumul_lens) of
        None \<Rightarrow> int n - 1
      | Some 0 \<Rightarrow> int n - 1
      | Some (Suc i) \<Rightarrow> int i + 2)"
  by (simp add: tie_down_node_idx_def argmax_bool_def py_or_def split: option.splits nat.splits)

text \<open>
  Claim C6. After a successful curve fit the fold index is the first cumulative-length
  index that exceeds the curve's arc length, the fallback being used only when there is
  no such index. On the concrete plant the first cumulative length (10) already exceeds
  the curve length (9), so that index is 0 and exists; the expression nevertheless takes
  the fallback, and the guide is set on all three nodes instead of the first two.
\<close>

theorem fold_index_first_segment:
  "first_true (map (\<lambda>c. c > 9) [10, 20 :: real]) = Some 0 \<and>
   tie_down_node_idx [10, 20] 9 3 = 2 \<and>
   tie_down_trunk ex_curves ex_strategy =
     Done (ex_strategy\<lparr>tree := Some (ex_tree\<lparr>guides := [([0, 1, 2], ex_curve, ''GlobalGuide'')]\<rparr>),
                       next_trunk_target := 1\<rparr>)"
  using ex_tie by (simp add: tie_down_node_idx_def argmax_bool_def py_or_def)

section \<open>Properties of the greedy leader assignment\<close>

lemma choose_wall_result:
  "choose_wall lpw d c ws best = Inr (Some (s, w)) \<Longrightarrow>
   best = Some (s, w) \<or>
   (\<exists>sp. (w, sp) \<in> set ws \<and> int (length sp) < lpw \<and>
         query_dist_from_line_points c sp = Some s \<and> \<not> dist_less s (Fin d))"
proof (induction ws arbitrary: best)
  case Nil
  then show ?case by simp
next
  case (Cons a ws)
  obtain k sp where a: "a = (k, sp)" by (cases a)
  show ?case
  proof (cases "int (length sp) \<ge> lpw")
    case True
    then have "choose_wall lpw d c ws best = Inr (Some (s, w))" using Cons.prems a by simp
    then show ?thesis using Cons.IH[of best] by auto
  next
    case False
    then obtain q where q: "query_dist_from_line_points c sp = Some q"
      using Cons.prems a by (cases "query_dist_from_line_points c sp") auto
    show ?thesis
    proof (cases "dist_less q (Fin d)")
      case True
      then have "choose_wall lpw d c ws best = Inr (Some (s, w))"
        using Cons.prems a False q by simp
      then show ?thesis using Cons.IH[of best] by auto
    next
      case nl: False
      show ?thesis
      proof (cases "case best of None \<Rightarrow> True | Some (bs, _) \<Rightarrow> dist_less q bs")
        case True
        then have "choose_wall lpw d c ws (Some (q, k)) = Inr (Some (s, w))"
          using Cons.prems a False q nl by simp
        then have "Some (q, k) = Some (s, w) \<or>
          (\<exists>sp. (w, sp) \<in> set ws \<and> int (length sp) < lpw \<and>
            query_dist_from_line_points c sp = Some s \<and> \<not> dist_less s (Fin d))"
          by (rule Cons.IH)
        then show ?thesis using a False q nl by auto
      next
        case f2: False
        then have "choose_wall lpw d c ws best = Inr (Some (s, w))"
          using Cons.prems a False q nl by simp
        then show ?thesis using Cons.IH[of best] by auto
      qed
    qed
  qed
qed

lemma not_below_floor:
  assumes "sorted sp" "query_dist_from_line_points c sp = Some s" "\<not> dist_less s (Fin d)"
  shows "\<forall>v\<in>set sp. d \<le> \<bar>c - v\<bar>"
proof (cases "sp = []")
  case True then show ?thesis by simp
next
  case False
  then have s: "s = Fin (nearest c sp)" using qd_nearest[OF assms(1) False, of c] assms(2) by simp
  then have "d \<le> nearest c sp" using assms(3) by simp
  moreover have "\<forall>v\<in>set sp. nearest c sp \<le> \<bar>c - v\<bar>"
    unfolding nearest_def by (simp add: Min_le)
  ultimately show ?thesis by fastforce
qed

lemma dict_set_fst: "map_of ws w = Some sp \<Longrightarrow> map fst (dict_set ws w v) = map fst ws"
  by (induction ws) (auto split: if_splits)

lemma dict_set_set: "set (dict_set ws w v) \<subseteq> insert (w, v) (set ws)"
  by (induction ws) (auto split: if_splits)

lemma dict_set_rel:
  "map_of ws w = Some sp \<Longrightarrow>
   list_all2 (\<lambda>a b. b = a \<or> (a = (w, sp) \<and> b = (w, v))) ws (dict_set ws w v)"
proof (induction ws)
  case Nil
  then show ?case by simp
next
  case (Cons a ws)
  have refl: "list_all2 (\<lambda>a b. b = a \<or> (a = (w, sp) \<and> b = (w, v))) ws ws"
    by (simp add: list_all2_same)
  show ?case
  proof (cases "fst a = w")
    case True
    then show ?thesis using Cons.prems refl by (cases a) auto
  next
    case False
    then show ?thesis using Cons by (cases a) auto
  qed
qed

lemma foldr_insort_sorted:
  "sorted xs \<Longrightarrow> foldr insort xs [c] = insort c (xs :: real list)"
proof (induction xs)
  case Nil
  then show ?case by simp
next
  case (Cons a r)
  then have "foldr insort r [c] = insort c r" by simp
  then have "foldr insort (a # r) [c] = insort a (insort c r)" by simp
  also have "\<dots> = insort c (insort a r)" by (rule insort_left_comm)
  also have "insort a r = a # r" using Cons.prems by (intro insort_is_Cons) auto
  finally show ?case .
qed

lemma sort_snoc: "sorted xs \<Longrightarrow> sort (xs @ [c]) = insort c (xs :: real list)"
  by (simp add: sort_key_def foldr_insort_sorted)

lemma apart_insort:
  "apart d xs \<Longrightarrow> \<forall>v\<in>set xs. d \<le> \<bar>c - v\<bar> \<Longrightarrow> apart d (insort c xs)"
proof (induction xs)
  case Nil
  then show ?case by simp
next
  case (Cons a r)
  show ?case
  proof (cases "c \<le> a")
    case True
    then show ?thesis using Cons.prems by (simp add: list_all_iff)
  next
    case False
    have "apart d (insort c r)" using Cons by simp
    moreover have "list_all (\<lambda>y. d \<le> \<bar>a - y\<bar>) (insort c r)"
      using Cons.prems by (auto simp: list_all_iff set_insort_key abs_minus_commute)
    ultimately show ?thesis using False by simp
  qed
qed

lemma place_candidate_cases:
  assumes "distinct (map fst ws)"
    and "place_candidate lpw d bare tied (n, c) ws = Inr ws'"
  shows "ws' = ws \<or>
    (\<exists>w sp s. map_of ws w = Some sp \<and> int (length sp) < lpw \<and>
       query_dist_from_line_points c sp = Some s \<and> \<not> dist_less s (Fin d) \<and>
       ws' = dict_set ws w (sort (sp @ [c])))"
proof (cases "n \<in> set tied \<or> c < bare")
  case True
  then show ?thesis using assms(2) by (simp add: place_candidate_def)
next
  case False
  show ?thesis
  proof (cases "choose_wall lpw d c ws None")
    case (Inl e)
    then show ?thesis using assms(2) False by (simp add: place_candidate_def)
  next
    case (Inr best)
    show ?thesis
    proof (cases best)
      case None
      then show ?thesis using assms(2) False Inr by (simp add: place_candidate_def)
    next
      case (Some p)
      obtain s w where p: "p = (s, w)" by (cases p)
      have "choose_wall lpw d c ws None = Inr (Some (s, w))" using Inr Some p by simp
      then obtain sp where sp: "(w, sp) \<in> set ws" "int (length sp) < lpw"
        "query_dist_from_line_points c sp = Some s" "\<not> dist_less s (Fin d)"
        using choose_wall_result[of lpw d c ws None s w] by auto
      have m: "map_of ws w = Some sp" using assms(1) sp(1) by (rule map_of_is_SomeI)
      then have "ws' = dict_set ws w (sort (sp @ [c]))"
        using assms(2) False Inr Some p by (simp add: place_candidate_def)
      then show ?thesis using m sp by blast
    qed
  qed
qed

lemma place_candidate_inv:
  assumes "distinct (map fst ws)" and "\<forall>e\<in>set ws. sorted (snd e)"
    and "place_candidate lpw d bare tied (n, c) ws = Inr ws'"
  shows "map fst ws' = map fst ws \<and> distinct (map fst ws') \<and> (\<forall>e\<in>set ws'. sorted (snd e))"
proof -
  consider (same) "ws' = ws"
    | (put) w sp where "map_of ws w = Some sp" "ws' = dict_set ws w (sort (sp @ [c]))"
    using place_candidate_cases[OF assms(1,3)] by blast
  then show ?thesis
  proof cases
    case same
    then show ?thesis using assms by simp
  next
    case put
    have f: "map fst ws' = map fst ws" using put by (simp add: dict_set_fst)
    have "\<forall>e\<in>set ws'. sorted (snd e)"
    proof
      fix e assume "e \<in> set ws'"
      then have "e = (w, sort (sp @ [c])) \<or> e \<in> set ws"
        using dict_set_set[of ws w "sort (sp @ [c])"] put(2) by auto
      then show "sorted (snd e)" using assms(2) by auto
    qed
    then show ?thesis using f assms(1) by simp
  qed
qed

lemma place_candidate_apart:
  assumes "distinct (map fst ws)" and "\<forall>e\<in>set ws. sorted (snd e)"
    and "\<forall>e\<in>set ws. apart d (snd e)"
    and "place_candidate lpw d bare tied (n, c) ws = Inr ws'"
  shows "\<forall>e\<in>set ws'. apart d (snd e)"
proof -
  consider (same) "ws' = ws"
    | (put) w sp s where "map_of ws w = Some sp"
        "query_dist_from_line_points c sp = Some s" "\<not> dist_less s (Fin d)"
        "ws' = dict_set ws w (sort (sp @ [c]))"
    using place_candidate_cases[OF assms(1,4)] by blast
  then show ?thesis
  proof cases
    case same
    then show ?thesis using assms by simp
  next
    case put
    have in_ws: "(w, sp) \<in> set ws" using put(1) by (rule map_of_SomeD)
    then have srt: "sorted sp" and ap: "apart d sp" using assms(2,3) by auto
    have "\<forall>v\<in>set sp. d \<le> \<bar>c - v\<bar>" using not_below_floor[OF srt put(2,3)] .
    then have new: "apart d (sort (sp @ [c]))"
      using ap srt by (simp add: sort_snoc apart_insort)
    show ?thesis
    proof
      fix e assume "e \<in> set ws'"
      then have "e = (w, sort (sp @ [c])) \<or> e \<in> set ws"
        using dict_set_set[of ws w "sort (sp @ [c])"] put(4) by auto
      then show "apart d (snd e)" using assms(3) new by auto
    qed
  qed
qed

lemma greedy_loop_apart:
  "distinct (map fst ws) \<Longrightarrow> \<forall>e\<in>set ws. sorted (snd e) \<Longrightarrow> \<forall>e\<in>set ws. apart d (snd e) \<Longrightarrow>
   greedy_loop lpw d bare tied cands ws = Inr ws' \<Longrightarrow>
   (\<forall>e\<in>set ws'. sorted (snd e)) \<and> (\<forall>e\<in>set ws'. apart d (snd e))"
proof (induction cands arbitrary: ws)
  case Nil
  then show ?case by simp
next
  case (Cons cand cands)
  obtain n c where nc: "cand = (n, c)" by (cases cand)
  obtain ws1 where ws1: "place_candidate lpw d bare tied (n, c) ws = Inr ws1"
    "greedy_loop lpw d bare tied cands ws1 = Inr ws'"
    using Cons.prems(4) nc by (cases "place_candidate lpw d bare tied (n, c) ws") auto
  have i: "distinct (map fst ws1)" "\<forall>e\<in>set ws1. sorted (snd e)"
    using place_candidate_inv[OF Cons.prems(1,2) ws1(1)] by blast+
  have a: "\<forall>e\<in>set ws1. apart d (snd e)"
    using place_candidate_apart[OF Cons.prems(1,2,3) ws1(1)] .
  show ?case using Cons.IH[OF i a ws1(2)] .
qed

text \<open>
  Claim C3. In the greedy step no candidate position is assigned to a wire when its
  distance to the wire's nearest occupied position is below \<open>leader_spacing\<close>: when a
  candidate is placed on a wire, every occupied position of that wire is at least the
  floor away from it (for an occupied wire, the nearest distance is not below the floor).
  Over the whole loop, wires whose positions are pairwise at least the floor apart stay
  so. The wires' lists are sorted and the wall ids distinct, as in the source's
  dictionary of sorted lists.
\<close>

theorem greedy_respects_spacing:
  assumes "distinct (map fst ws)" and "\<forall>e\<in>set ws. sorted (snd e)"
  shows "(place_candidate lpw desired bare tied (n, c) ws = Inr ws' \<longrightarrow>
            ws' = ws \<or>
            (\<exists>w sp. map_of ws w = Some sp \<and> ws' = dict_set ws w (sort (sp @ [c])) \<and>
               (\<forall>v\<in>set sp. desired \<le> \<bar>c - v\<bar>) \<and>
               (sp \<noteq> [] \<longrightarrow> desired \<le> nearest c sp))) \<and>
         (greedy_loop lpw desired bare tied cands ws = Inr ws'' \<and>
          (\<forall>e\<in>set ws. apart desired (snd e)) \<longrightarrow>
            (\<forall>e\<in>set ws''. sorted (snd e) \<and> apart desired (snd e)))"
proof (intro conjI impI)
  assume p: "place_candidate lpw desired bare tied (n, c) ws = Inr ws'"
  consider (same) "ws' = ws"
    | (put) w sp s where "map_of ws w = Some sp"
        "query_dist_from_line_points c sp = Some s" "\<not> dist_less s (Fin desired)"
        "ws' = dict_set ws w (sort (sp @ [c]))"
    using place_candidate_cases[OF assms(1) p] by blast
  then show "ws' = ws \<or>
            (\<exists>w sp. map_of ws w = Some sp \<and> ws' = dict_set ws w (sort (sp @ [c])) \<and>
               (\<forall>v\<in>set sp. desired \<le> \<bar>c - v\<bar>) \<and>
               (sp \<noteq> [] \<longrightarrow> desired \<le> nearest c sp))"
  proof cases
    case same
    then show ?thesis by simp
  next
    case put
    have "(w, sp) \<in> set ws" using put(1) by (rule map_of_SomeD)
    then have srt: "sorted sp" using assms(2) by auto
    have fl: "\<forall>v\<in>set sp. desired \<le> \<bar>c - v\<bar>" using not_below_floor[OF srt put(2,3)] .
    have "sp \<noteq> [] \<longrightarrow> desired \<le> nearest c sp"
    proof
      assume ne: "sp \<noteq> []"
      then have "s = Fin (nearest c sp)" using qd_nearest[OF srt ne, of c] put(2) by simp
      then show "desired \<le> nearest c sp" using put(3) by simp
    qed
    then show ?thesis using put(1,4) fl by blast
  qed
next
  assume g: "greedy_loop lpw desired bare tied cands ws = Inr ws'' \<and>
          (\<forall>e\<in>set ws. apart desired (snd e))"
  then show "\<forall>e\<in>set ws''. sorted (snd e) \<and> apart desired (snd e)"
    using greedy_loop_apart[OF assms, of desired lpw bare tied cands ws''] by blast
qed

text \<open>
  C3 on a wire occupied at 2.0 and 5.0 with floor 0.9: the candidate 3.6 is placed
  (nearest distance 1.4), the candidate 2.3 is not.
\<close>

theorem greedy_respects_spacing_witness:
  "distinct (map fst [(0 :: nat, [2, 5 :: real])]) \<and> sorted [2, 5 :: real] \<and>
   place_candidate 5 (9 / 10) 0 [] (7, 18 / 5) [(0, [2, 5])] = Inr [(0, [2, 18 / 5, 5])] \<and>
   nearest (18 / 5) [2, 5] = 7 / 5 \<and>
   place_candidate 5 (9 / 10) 0 [] (8, 23 / 10) [(0, [2, 5])] = Inr [(0, [2, 5])] \<and>
   greedy_loop 5 (9 / 10) 0 [] [(7, 18 / 5), (8, 23 / 10)] [(0, [2, 5])]
     = Inr [(0, [2, 18 / 5, 5])] \<and>
   apart (9 / 10) [2, 5] \<and> apart (9 / 10) [2, 18 / 5, 5]"
proof -
  have a: "distinct (map fst [(0 :: nat, [2, 5 :: real])])" by simp
  have b: "\<forall>e\<in>set [(0 :: nat, [2, 5 :: real])]. sorted (snd e)" by simp
  have p1: "place_candidate 5 (9 / 10) 0 [] (7, 18 / 5) [(0, [2, 5])] = Inr [(0, [2, 18 / 5, 5])]"
    by (simp add: place_candidate_def query_dist_from_line_points_def)
  have p2: "place_candidate 5 (9 / 10) 0 [] (8, 23 / 10) [(0, [2, 5])] = Inr [(0, [2, 5])]"
    by (simp add: place_candidate_def query_dist_from_line_points_def)
  have p3: "place_candidate 5 (9 / 10) 0 [] (8, 23 / 10) [(0, [2, 18 / 5, 5])]
      = Inr [(0, [2, 18 / 5, 5])]"
    by (simp add: place_candidate_def query_dist_from_line_points_def)
  have g: "greedy_loop 5 (9 / 10) 0 [] [(7, 18 / 5), (8, 23 / 10)] [(0, [2, 5])]
     = Inr [(0, [2, 18 / 5, 5])]"
    by (simp add: p1 p3)
  have n: "nearest (18 / 5) [2, 5] = 7 / 5" by (simp add: nearest_def)
  have ap: "apart (9 / 10) [2, 5 :: real]" by simp
  have "apart (9 / 10) [2, 18 / 5, 5 :: real]"
    using greedy_respects_spacing [OF a b, of 5 "9 / 10" 0 "[]" 7 "18 / 5"
        "[(0, [2, 18 / 5, 5])]" "[(7, 18 / 5), (8, 23 / 10)]" "[(0, [2, 18 / 5, 5])]"] g ap
    by simp
  then show ?thesis using p1 p2 g n ap by simp
qed

lemma place_candidate_keys:
  assumes "distinct (map fst ws)" and "place_candidate lpw d bare tied (n, c) ws = Inr ws'"
  shows "map fst ws' = map fst ws"
  using place_candidate_cases[OF assms] by (auto simp: dict_set_fst)

lemma place_candidate_quota:
  assumes "distinct (map fst ws)" and "place_candidate lpw d bare tied (n, c) ws = Inr ws'"
  shows "list_all2 (\<lambda>a b. fst b = fst a \<and>
            (snd b = snd a \<or> (length (snd a) < length (snd b) \<and> int (length (snd b)) \<le> lpw)))
          ws ws'"
proof -
  consider (same) "ws' = ws"
    | (put) w sp where "map_of ws w = Some sp" "int (length sp) < lpw"
        "ws' = dict_set ws w (sort (sp @ [c]))"
    using place_candidate_cases[OF assms] by blast
  then show ?thesis
  proof cases
    case same
    then show ?thesis by (simp add: list_all2_same)
  next
    case put
    have "list_all2 (\<lambda>a b. b = a \<or> (a = (w, sp) \<and> b = (w, sort (sp @ [c])))) ws ws'"
      unfolding put(3) using put(1) by (rule dict_set_rel)
    then show ?thesis
    proof (rule list_all2_mono)
      fix a b :: "nat \<times> real list"
      assume "b = a \<or> (a = (w, sp) \<and> b = (w, sort (sp @ [c])))"
      then show "fst b = fst a \<and>
            (snd b = snd a \<or> (length (snd a) < length (snd b) \<and> int (length (snd b)) \<le> lpw))"
        using put(2) by auto
    qed
  qed
qed

lemma greedy_loop_quota:
  "distinct (map fst ws) \<Longrightarrow> greedy_loop lpw d bare tied cands ws = Inr ws' \<Longrightarrow>
   list_all2 (\<lambda>a b. fst b = fst a \<and>
            (snd b = snd a \<or> (length (snd a) < length (snd b) \<and> int (length (snd b)) \<le> lpw)))
          ws ws'"
proof (induction cands arbitrary: ws)
  case Nil
  then show ?case by (simp add: list_all2_same)
next
  case (Cons cand cands)
  let ?Q = "\<lambda>(a :: nat \<times> real list) (b :: nat \<times> real list). fst b = fst a \<and>
            (snd b = snd a \<or> (length (snd a) < length (snd b) \<and> int (length (snd b)) \<le> lpw))"
  obtain n c where nc: "cand = (n, c)" by (cases cand)
  obtain ws1 where ws1: "place_candidate lpw d bare tied (n, c) ws = Inr ws1"
    "greedy_loop lpw d bare tied cands ws1 = Inr ws'"
    using Cons.prems(2) nc by (cases "place_candidate lpw d bare tied (n, c) ws") auto
  have k: "distinct (map fst ws1)"
    using place_candidate_keys[OF Cons.prems(1) ws1(1)] Cons.prems(1) by simp
  have s1: "list_all2 ?Q ws ws1" using place_candidate_quota[OF Cons.prems(1) ws1(1)] .
  have s2: "list_all2 ?Q ws1 ws'" using Cons.IH[OF k ws1(2)] .
  show ?case
  proof (rule list_all2_trans[OF _ s1 s2])
    fix a b c :: "nat \<times> real list"
    assume "?Q a b" "?Q b c"
    then show "?Q a c" by auto
  qed
qed

text \<open>
  Claim C4. In the greedy step no candidate position is assigned to a wire whose list
  already has \<open>leaders_per_wall\<close> entries or more; so over the whole loop every wire's
  list either stays as it was or grows to a length within the quota.
\<close>

theorem greedy_respects_quota:
  assumes "distinct (map fst ws)"
  shows "(place_candidate lpw desired bare tied (n, c) ws = Inr ws' \<longrightarrow>
            ws' = ws \<or>
            (\<exists>w sp. map_of ws w = Some sp \<and> int (length sp) < lpw \<and>
               ws' = dict_set ws w (sort (sp @ [c])))) \<and>
         (greedy_loop lpw desired bare tied cands ws = Inr ws'' \<longrightarrow>
            list_all2 (\<lambda>a b. fst b = fst a \<and>
                (snd b = snd a \<or>
                 (length (snd a) < length (snd b) \<and> int (length (snd b)) \<le> lpw)))
              ws ws'')"
proof (intro conjI impI)
  assume p: "place_candidate lpw desired bare tied (n, c) ws = Inr ws'"
  show "ws' = ws \<or>
            (\<exists>w sp. map_of ws w = Some sp \<and> int (length sp) < lpw \<and>
               ws' = dict_set ws w (sort (sp @ [c])))"
    using place_candidate_cases[OF assms p] by blast
next
  assume "greedy_loop lpw desired bare tied cands ws = Inr ws''"
  then show "list_all2 (\<lambda>a b. fst b = fst a \<and>
                (snd b = snd a \<or>
                 (length (snd a) < length (snd b) \<and> int (length (snd b)) \<le> lpw)))
              ws ws''"
    using greedy_loop_quota[OF assms] by blast
qed

text \<open>
  C4 with quota 2: the full wire 0 is never chosen; wire 2 takes two candidates and
  then refuses the third.
\<close>

theorem greedy_respects_quota_witness:
  "distinct (map fst [(0 :: nat, [2, 5 :: real]), (2, [])]) \<and>
   place_candidate 2 (9 / 10) 0 [] (7, 18 / 5) [(0, [2, 5]), (2, [])]
     = Inr [(0, [2, 5]), (2, [18 / 5])] \<and>
   greedy_loop 2 (9 / 10) 0 [] [(7, 18 / 5), (8, 7), (9, 9)] [(0, [2, 5]), (2, [])]
     = Inr [(0, [2, 5]), (2, [18 / 5, 7])]"
proof -
  have a: "distinct (map fst [(0 :: nat, [2, 5 :: real]), (2, [])])" by simp
  have p1: "place_candidate 2 (9 / 10) 0 [] (7, 18 / 5) [(0, [2, 5]), (2, [])]
     = Inr [(0, [2, 5]), (2, [18 / 5])]"
    by (simp add: place_candidate_def query_dist_from_line_points_def)
  have p2: "place_candidate 2 (9 / 10) 0 [] (8, 7) [(0, [2, 5]), (2, [18 / 5])]
     = Inr [(0, [2, 5]), (2, [18 / 5, 7])]"
    by (simp add: place_candidate_def query_dist_from_line_points_def)
  have p3: "place_candidate 2 (9 / 10) 0 [] (9, 9) [(0, [2, 5]), (2, [18 / 5, 7])]
     = Inr [(0, [2, 5]), (2, [18 / 5, 7])]"
    by (simp add: place_candidate_def query_dist_from_line_points_def)
  have g: "greedy_loop 2 (9 / 10) 0 [] [(7, 18 / 5), (8, 7), (9, 9)] [(0, [2, 5]), (2, [])]
     = Inr [(0, [2, 5]), (2, [18 / 5, 7])]"
    by (simp add: p1 p2 p3)
  show ?thesis
    using greedy_respects_quota [OF a, of 2 "9 / 10" 0 "[]" 7 "18 / 5"
        "[(0, [2, 5]), (2, [18 / 5])]" "[(7, 18 / 5), (8, 7), (9, 9)]"
        "[(0, [2, 5]), (2, [18 / 5, 7])]"] p1 g
    by simp
qed

section \<open>Properties of the branch scan and of the terminal state\<close>

text \<open>
  Claim C5. For every generation-1 branch all edges are scanned for a \<open>Tie\<close> module and,
  on finding one, the branch's first node is added to the list registered under the wire
  id, the registry being a mapping from wall id to a list of node ids. On the concrete
  plant the scan visits only the edge \<open>(12, 13)\<close> of the branch \<open>[10, 11, 12, 13]\<close>
  (the \<open>Tie\<close> for wall 7 on the edge \<open>(11, 12)\<close> is never seen), and the registry maps
  wall 0 to the bare node id 10, not to a list.
\<close>

theorem registry_holds_bare_node:
  "tie_edges [10, 11, 12, 13] = [(12, 13)] \<and>
   register_branches (WallMap [(0, [ex_target])]) ex_params (search_branches tied_tree 1)
       ([], tied_tree)
     = Done ([(0, SingleNode 10)], tied_tree\<lparr>stubs := [([13], 5 / 2)]\<rparr>)"
  by (simp add: tie_edges_def search_branches_def tied_tree_def tied_leader_def ex_trunk_def
      register_branch_def find_module_def no_modules_def manage_tied_branch_def
      stub_branch_def ex_params_def)

lemma manage_tied_branch_count:
  "manage_tied_branch (WallCount k) ps t ns w i = Raise TypeError t"
  by (simp add: manage_tied_branch_def)

lemma scan_ties_count:
  "snd (state_of (scan_ties (WallCount k) ps ns es (reg, t))) = t"
proof (induction es arbitrary: reg)
  case Nil
  then show ?case by simp
next
  case (Cons e es)
  show ?case
    by (simp add: manage_tied_branch_count Cons.IH
        split: sum.splits option.splits list.splits)
qed

lemma register_branch_count:
  "snd (state_of (register_branch (WallCount k) ps b (reg, t))) = t"
proof (cases "map_of (branches t) b")
  case None
  then show ?thesis by (simp add: register_branch_def)
next
  case (Some br)
  have s: "snd (state_of (scan_ties (WallCount k) ps (nodes br) (tie_edges (nodes br)) (reg, t))) = t"
    by (rule scan_ties_count)
  show ?thesis
  proof (cases "scan_ties (WallCount k) ps (nodes br) (tie_edges (nodes br)) (reg, t)")
    case (Raise e st)
    then show ?thesis using Some s by (simp add: register_branch_def)
  next
    case (Done st)
    obtain reg1 t1 where st: "st = (reg1, t1)" by (cases st)
    then have "t1 = t" using s Done by simp
    then show ?thesis using Some Done st
      by (simp add: register_branch_def
          split: list.splits sum.splits option.splits prod.splits reg_entry.splits)
  qed
qed

lemma register_branches_count:
  "snd (state_of (register_branches (WallCount k) ps ids (reg, t))) = t"
proof (induction ids arbitrary: reg)
  case Nil
  then show ?case by simp
next
  case (Cons b ids)
  have s: "snd (state_of (register_branch (WallCount k) ps b (reg, t))) = t"
    by (rule register_branch_count)
  show ?case
  proof (cases "register_branch (WallCount k) ps b (reg, t)")
    case (Raise e st)
    then show ?thesis using s by simp
  next
    case (Done st)
    obtain reg1 t1 where st: "st = (reg1, t1)" by (cases st)
    then have "t1 = t" using s Done by simp
    then show ?thesis using Done st Cons.IH[of reg1] by simp
  qed
qed

lemma full_tree_trunk: "search_branches_unique full_tree 0 = Inr 0"
  by (simp add: search_branches_unique_def search_branches_def full_tree_def
      tied_leader_def ex_trunk_def)

lemma full_tree_leaders: "search_branches (t\<lparr>branches := branches full_tree\<rparr>) (Suc 0) = [3]"
  by (simp add: search_branches_def full_tree_def tied_leader_def ex_trunk_def)

lemma full_tree_scan:
  "register_branch (WallMap [(0, [ex_target])]) ps 3 ([], full_tree\<lparr>stubs := ss\<rparr>)
     = Done ([(0, SingleNode 10)],
             full_tree\<lparr>stubs := ss @ [([13], case leader_excess_stub ps of None \<Rightarrow> 5 / 2 | Some x \<Rightarrow> x)]\<rparr>)"
  by (simp add: tie_edges_def full_tree_def tied_leader_def ex_trunk_def
      register_branch_def find_module_def no_modules_def manage_tied_branch_def
      stub_branch_def)

text \<open>
  Claim C8. Once all trunk targets are tied and every wire is at its quota,
  \<open>apply_strategy\<close> is an idempotent no-op that leaves the controller state and the
  plant graph unchanged. On the plant in the terminal state each call stubs the tied
  branch again and then raises \<open>TypeError\<close> at \<open>range(self.wire_walls)\<close>; with
  \<open>wire_walls\<close> a count instead, the call raises \<open>TypeError\<close> at
  \<open>self.wire_walls[wall_id]\<close>.
\<close>

theorem apply_strategy_restubs:
  "next_trunk_target full_strategy = length (trunk_targets full_strategy) \<and>
   apply_strategy ex_curves full_strategy
     = Raise TypeError (full_strategy\<lparr>tree := Some (full_tree\<lparr>stubs := [([13], 5 / 2)]\<rparr>)\<rparr>) \<and>
   apply_strategy ex_curves (full_strategy\<lparr>tree := Some (full_tree\<lparr>stubs := [([13], 5 / 2)]\<rparr>)\<rparr>)
     = Raise TypeError
         (full_strategy\<lparr>tree := Some (full_tree\<lparr>stubs := [([13], 5 / 2), ([13], 5 / 2)]\<rparr>)\<rparr>) \<and>
   apply_strategy ex_curves (full_strategy\<lparr>wire_walls := WallCount 1\<rparr>)
     = Raise TypeError (full_strategy\<lparr>wire_walls := WallCount 1\<rparr>)"
proof -
  have td: "\<And>s. next_trunk_target s = 1 \<Longrightarrow> trunk_targets s = [ex_target] \<Longrightarrow>
      tie_down_trunk ex_curves s = Done s"
    by (simp add: tie_down_trunk_def)
  have b: "map_of (branches full_tree) 0 = Some ex_trunk" by (simp add: full_tree_def)
  have l: "\<not> length_b ex_trunk < 5" by (simp add: ex_trunk_def)
  have sb: "search_branches full_tree (Suc 0) = [3]"
    using full_tree_leaders[of full_tree] by simp
  have sb1: "\<And>ss. search_branches (full_tree\<lparr>stubs := ss\<rparr>) (Suc 0) = [3]"
    by (simp add: search_branches_def full_tree_def tied_leader_def ex_trunk_def)
  have tr1: "\<And>ss. search_branches_unique (full_tree\<lparr>stubs := ss\<rparr>) 0 = Inr 0"
    by (simp add: search_branches_unique_def search_branches_def full_tree_def
      tied_leader_def ex_trunk_def)
  have b1: "\<And>ss. map_of (branches (full_tree\<lparr>stubs := ss\<rparr>)) 0 = Some ex_trunk"
    by (simp add: full_tree_def)
  have sc0: "register_branch (WallMap [(0, [ex_target])]) (ex_params\<lparr>leaders_per_wall := Some 1\<rparr>)
      3 ([], full_tree)
     = Done ([(0, SingleNode 10)], full_tree\<lparr>stubs := [([13], 5 / 2)]\<rparr>)"
    using full_tree_scan[of "ex_params\<lparr>leaders_per_wall := Some 1\<rparr>" "[]"]
    by (simp add: ex_params_def full_tree_def)
  have sc1: "register_branch (WallMap [(0, [ex_target])]) (ex_params\<lparr>leaders_per_wall := Some 1\<rparr>)
      3 ([], full_tree\<lparr>stubs := [([13], 5 / 2)]\<rparr>)
     = Done ([(0, SingleNode 10)], full_tree\<lparr>stubs := [([13], 5 / 2), ([13], 5 / 2)]\<rparr>)"
    using full_tree_scan[of "ex_params\<lparr>leaders_per_wall := Some 1\<rparr>" "[([13], 5 / 2)]"]
    by (simp add: ex_params_def)
  have sc2: "register_branch (WallCount 1) (ex_params\<lparr>leaders_per_wall := Some 1\<rparr>)
      3 ([], full_tree) = Raise TypeError ([(0, SingleNode 10)], full_tree)"
    by (simp add: tie_edges_def full_tree_def tied_leader_def ex_trunk_def
      register_branch_def find_module_def no_modules_def manage_tied_branch_def)
  have c1: "apply_strategy ex_curves full_strategy
     = Raise TypeError (full_strategy\<lparr>tree := Some (full_tree\<lparr>stubs := [([13], 5 / 2)]\<rparr>)\<rparr>)"
    by (simp add: apply_strategy_def td examine_leaders_def assign_leaders_def
        full_strategy_def full_tree_trunk b l sb sc0)
  have c2: "apply_strategy ex_curves
       (full_strategy\<lparr>tree := Some (full_tree\<lparr>stubs := [([13], 5 / 2)]\<rparr>)\<rparr>)
     = Raise TypeError
         (full_strategy\<lparr>tree := Some (full_tree\<lparr>stubs := [([13], 5 / 2), ([13], 5 / 2)]\<rparr>)\<rparr>)"
    by (simp add: apply_strategy_def td examine_leaders_def assign_leaders_def
        full_strategy_def tr1 b1 b l sb1 sc1)
  have c3: "apply_strategy ex_curves (full_strategy\<lparr>wire_walls := WallCount 1\<rparr>)
     = Raise TypeError (full_strategy\<lparr>wire_walls := WallCount 1\<rparr>)"
    by (simp add: apply_strategy_def td examine_leaders_def assign_leaders_def
        full_strategy_def full_tree_trunk b l sb sc2)
  have c0: "next_trunk_target full_strategy = length (trunk_targets full_strategy)"
    by (simp add: full_strategy_def)
  show ?thesis using c0 c1 c2 c3 by blast
qed

text \<open>
  With \<open>wire_walls\<close> a count, the shape the capacity check needs, a call in the terminal
  state leaves the state as it was, whether it returns or raises.
\<close>

lemma assign_leaders_count:
  assumes "wire_walls self = WallCount k"
  shows "state_of (assign_leaders self) = self"
proof (cases "tree self")
  case None
  then show ?thesis by (simp add: assign_leaders_def)
next
  case (Some t)
  have s: "snd (state_of (register_branches (WallCount k) (params self)
      (search_branches t 1) ([], t))) = t"
    by (rule register_branches_count)
  have same: "self\<lparr>tree := Some t\<rparr> = self" using Some by simp
  show ?thesis
  proof (cases "register_branches (WallCount k) (params self) (search_branches t 1) ([], t)")
    case (Raise e st)
    obtain reg1 t1 where st: "st = (reg1, t1)" by (cases st)
    then have "t1 = t" using s Raise by simp
    then show ?thesis using Some Raise st same assms by (simp add: assign_leaders_def)
  next
    case (Done st)
    obtain reg1 t1 where st: "st = (reg1, t1)" by (cases st)
    then have "t1 = t" using s Done by simp
    then show ?thesis using Some Done st same assms
      by (simp add: assign_leaders_def Let_def split: sum.splits prod.splits)
  qed
qed

lemma terminal_state_unchanged:
  assumes "next_trunk_target self = length (trunk_targets self)"
    and "wire_walls self = WallCount k"
  shows "state_of (apply_strategy curves self) = self"
proof -
  have td: "tie_down_trunk curves self = Done self"
    using assms(1) by (simp add: tie_down_trunk_def)
  have "state_of (examine_leaders self) = self"
    using assign_leaders_count[OF assms(2)]
    by (simp add: examine_leaders_def rub_off_trunk_buds_def
        split: option.splits sum.splits)
  then show ?thesis using td by (simp add: apply_strategy_def)
qed

end
